theory Spec2Isabelle
  imports Complex_Main "HOL-Library.Multiset" "HOL-Library.AList"
begin

section \<open>JavaScript values, strings and objects\<close>

text \<open>
  A string is a list of characters; a character stands for one UTF-16 code unit below 256, so
  the model covers the strings of the engine that stay within Latin-1. The values that the
  modelled code stores in a frame object are strings, booleans and \<open>undefined\<close>.
\<close>

datatype jsval = JString string | JBool bool | JUndefined

fun js_truthy :: "jsval \<Rightarrow> bool" where
  "js_truthy (JString s) = (s \<noteq> [])"
| "js_truthy (JBool b) = b"
| "js_truthy JUndefined = False"

fun js_to_string :: "jsval \<Rightarrow> string" where
  "js_to_string (JString s) = s"
| "js_to_string (JBool b) = (if b then ''true'' else ''false'')"
| "js_to_string JUndefined = ''undefined''"

text \<open>Character classes of the regular expressions in the source.\<close>

definition is_lower :: "char \<Rightarrow> bool" where
  "is_lower c = (97 \<le> (of_char c :: nat) \<and> (of_char c :: nat) \<le> 122)"

definition is_upper :: "char \<Rightarrow> bool" where
  "is_upper c = (65 \<le> (of_char c :: nat) \<and> (of_char c :: nat) \<le> 90)"

definition is_digit :: "char \<Rightarrow> bool" where
  "is_digit c = (48 \<le> (of_char c :: nat) \<and> (of_char c :: nat) \<le> 57)"

definition is_alpha :: "char \<Rightarrow> bool" where
  "is_alpha c = (is_lower c \<or> is_upper c)"

text \<open>\<open>\w\<close>: letters, digits and the underscore.\<close>

definition is_word_char :: "char \<Rightarrow> bool" where
  "is_word_char c = (is_alpha c \<or> is_digit c \<or> c = CHR ''_'')"

text \<open>\<open>[A-Za-z]+\<close> and \<open>[a-z]+\<close>, matched against a whole string.\<close>

definition is_alpha_word :: "string \<Rightarrow> bool" where
  "is_alpha_word s = (s \<noteq> [] \<and> list_all is_alpha s)"

definition is_lower_word :: "string \<Rightarrow> bool" where
  "is_lower_word s = (s \<noteq> [] \<and> list_all is_lower s)"

text \<open>\<open>String.prototype.split\<close> with a separator of one character: never the empty list.\<close>

fun js_split :: "char \<Rightarrow> string \<Rightarrow> string list" where
  "js_split c [] = [[]]"
| "js_split c (x # xs) =
     (if x = c then [] # js_split c xs
      else (case js_split c xs of [] \<Rightarrow> [[x]] | r # rs \<Rightarrow> (x # r) # rs))"

text \<open>\<open>Array.prototype.join\<close> on an array of strings.\<close>

fun js_join :: "string \<Rightarrow> string list \<Rightarrow> string" where
  "js_join sep [] = []"
| "js_join sep [x] = x"
| "js_join sep (x # y # ys) = x @ sep @ js_join sep (y # ys)"

text \<open>
  An object is the list of its own properties in insertion order. Writing a property changes
  it in place when it exists and appends it otherwise (\<open>AList.update\<close>); reading an absent
  property gives \<open>undefined\<close>. Assigning a primitive to \<open>__proto__\<close> does nothing.
\<close>

type_synonym jsobj = "(string \<times> jsval) list"

definition js_get :: "jsobj \<Rightarrow> string \<Rightarrow> jsval" where
  "js_get obj p = (case map_of obj p of None \<Rightarrow> JUndefined | Some v \<Rightarrow> v)"

definition js_set :: "jsobj \<Rightarrow> string \<Rightarrow> jsval \<Rightarrow> jsobj" where
  "js_set obj p v = (if p = ''__proto__'' then obj else AList.update p v obj)"

text \<open>
  \<open>Object.keys\<close>: the names that are array indices (canonical decimal numerals up to
  \<open>2^32 - 2\<close>) come first, in numeric order, then the other names in insertion order.
\<close>

definition digits_value :: "string \<Rightarrow> int" where
  "digits_value s = foldl (\<lambda>n c. 10 * n + ((of_char c :: int) - 48)) 0 s"

definition is_array_index :: "string \<Rightarrow> bool" where
  "is_array_index s =
     (s \<noteq> [] \<and> list_all is_digit s \<and> (s = ''0'' \<or> hd s \<noteq> CHR ''0'')
      \<and> digits_value s \<le> 4294967294)"

definition js_keys :: "jsobj \<Rightarrow> string list" where
  "js_keys obj =
     sort_key digits_value (filter is_array_index (map fst obj))
     @ filter (\<lambda>p. \<not> is_array_index p) (map fst obj)"

section \<open>ShortJSON\<close>

text \<open>
  \<open>sjnToArr\<close>: the argument is the raw session value, \<open>None\<close> when the session has none
  (\<open>undefined\<close>); a falsy argument counts as the empty string.
\<close>

definition sjnToArr :: "string option \<Rightarrow> string list" where
  "sjnToArr str =
     (let str = (case str of None \<Rightarrow> [] | Some s \<Rightarrow> s)
      in if str = [] then [] else js_split CHR '';'' str)"

text \<open>
  \<open>arrToSJN\<close>: \<open>join\<close> turns every element into a string, \<open>undefined\<close> into the
  empty one.
\<close>

fun js_join_elem :: "jsval \<Rightarrow> string" where
  "js_join_elem JUndefined = []"
| "js_join_elem v = js_to_string v"

definition arrToSJN :: "jsval list \<Rightarrow> string" where
  "arrToSJN arr = js_join '';'' (map js_join_elem arr)"

text \<open>
  \<open>arrToArrObj\<close>: the first piece of an item becomes the property \<open>key\<close>, every later
  piece a property set to \<open>true\<close> (a later piece named \<open>key\<close> overwrites the key).
\<close>

definition arrToArrObj_item :: "string \<Rightarrow> jsobj" where
  "arrToArrObj_item arrItem =
     (let pieces = js_split CHR '':'' arrItem
      in foldl (\<lambda>arrObj arrObjProp. js_set arrObj arrObjProp (JBool True))
           (js_set [] ''key'' (JString (hd pieces))) (tl pieces))"

definition arrToArrObj :: "string list \<Rightarrow> jsobj list" where
  "arrToArrObj arr = map arrToArrObj_item arr"

text \<open>
  \<open>arrObjToArr\<close>: the item starts as the value of \<open>key\<close> and gains \<open>:name\<close> for every
  other own property with a truthy value; \<open>+=\<close> with a string turns the item into a string.
\<close>

definition arrObjToArr_item :: "jsobj \<Rightarrow> jsval" where
  "arrObjToArr_item arrObjItem =
     foldl (\<lambda>arrItem arrObjProp.
              if arrObjProp = ''key'' then arrItem
              else if js_truthy (js_get arrObjItem arrObjProp)
                   then JString (js_to_string arrItem @ '':'' @ arrObjProp)
                   else arrItem)
       (js_get arrObjItem ''key'') (js_keys arrObjItem)"

definition arrObjToArr :: "jsobj list \<Rightarrow> jsval list" where
  "arrObjToArr arrObj = map arrObjToArr_item arrObj"

text \<open>\<open>arrToArrObjKey\<close>: the value of \<open>key\<close> of every decoded item.\<close>

definition arrToArrObjKey :: "string list \<Rightarrow> jsval list" where
  "arrToArrObjKey arr = map (\<lambda>i. js_get i ''key'') (arrToArrObj arr)"

text \<open>\<open>arrPush\<close>: a falsy array string (absent or empty) is replaced by the new item.\<close>

definition arrPush :: "string option \<Rightarrow> string \<Rightarrow> string" where
  "arrPush arr str =
     (case arr of None \<Rightarrow> str
      | Some a \<Rightarrow> if a = [] then str else a @ '';'' @ str)"

text \<open>
  The regular expressions of \<open>inSJN\<close> and \<open>clearInSJN\<close> are built by splicing the goal
  name into a pattern. The model reads the name as literal text, which is what the pattern
  does for a name without regular-expression metacharacters, such as a name of letters,
  digits and underscores. A name with such a character gives another pattern, or none when the
  constructor rejects it; the model does not cover these names, and the properties of the
  search and of the removal are stated for names of word characters. A matcher walks the
  string with the character before the current position (\<open>None\<close> at the start) at hand, for
  \<open>\b\<close>.
\<close>

definition word_boundary :: "char option \<Rightarrow> string \<Rightarrow> bool" where
  "word_boundary prev rest =
     ((case prev of None \<Rightarrow> False | Some c \<Rightarrow> is_word_char c)
      \<noteq> (case rest of [] \<Rightarrow> False | c # _ \<Rightarrow> is_word_char c))"

definition last_char :: "char option \<Rightarrow> string \<Rightarrow> char option" where
  "last_char prev s = (if s = [] then prev else Some (last s))"

text \<open>\<open>\bstr\b\<close> at the current position.\<close>

definition inSJN_at :: "string \<Rightarrow> char option \<Rightarrow> string \<Rightarrow> bool" where
  "inSJN_at str prev rest =
     (word_boundary prev rest \<and> take (length str) rest = str
      \<and> word_boundary (last_char prev str) (drop (length str) rest))"

fun inSJN_scan :: "string \<Rightarrow> char option \<Rightarrow> string \<Rightarrow> bool" where
  "inSJN_scan str prev [] = inSJN_at str prev []"
| "inSJN_scan str prev (c # cs) = (inSJN_at str prev (c # cs) \<or> inSJN_scan str (Some c) cs)"

definition inSJN :: "string option \<Rightarrow> string \<Rightarrow> bool" where
  "inSJN sjnArr str = inSJN_scan str None (case sjnArr of None \<Rightarrow> [] | Some s \<Rightarrow> s)"

text \<open>
  \<open>(:[a-z]*)*\b\<close> at the current position: the number of characters the greedy,
  backtracking match consumes, or \<open>None\<close> when every alternative fails. One round of the
  star reads \<open>:\<close> and the longest run of lower-case letters, then the rest is tried. When the
  rest fails, the run is given back letter by letter: between two letters of the run there is
  no word boundary and no further round can start, so the only shorter alternative that
  succeeds is the bare \<open>:\<close> before a non-empty run. Failing that, the star stops before the
  \<open>:\<close> and \<open>\b\<close> is tested there.
\<close>

function match_flags :: "char option \<Rightarrow> string \<Rightarrow> nat option" where
  "match_flags prev [] = (if word_boundary prev [] then Some 0 else None)"
| "match_flags prev (c # t) =
     (if c = CHR '':'' then
        (case match_flags (Some (last (c # takeWhile is_lower t))) (dropWhile is_lower t) of
           Some n \<Rightarrow> Some (1 + length (takeWhile is_lower t) + n)
         | None \<Rightarrow>
             if takeWhile is_lower t \<noteq> [] then Some 1
             else if word_boundary prev (c # t) then Some 0 else None)
      else if word_boundary prev (c # t) then Some 0 else None)"
  by pat_completeness auto
termination
  by (relation "measure (\<lambda>(prev, s). length s)")
     (auto simp: le_imp_less_Suc length_dropWhile_le)

text \<open>\<open>\bstr(:[a-z]*)*\b\<close> at the current position: the length of the match.\<close>

definition clearInSJN_at :: "string \<Rightarrow> char option \<Rightarrow> string \<Rightarrow> nat option" where
  "clearInSJN_at str prev rest =
     (if word_boundary prev rest \<and> take (length str) rest = str
      then map_option (\<lambda>n. length str + n)
             (match_flags (last_char prev str) (drop (length str) rest))
      else None)"

text \<open>\<open>replace\<close> with that pattern and the empty string: the leftmost match is cut out.\<close>

fun replace_goal :: "string \<Rightarrow> char option \<Rightarrow> string \<Rightarrow> string" where
  "replace_goal str prev [] = []"
| "replace_goal str prev (c # cs) =
     (case clearInSJN_at str prev (c # cs) of
        Some n \<Rightarrow> drop n (c # cs)
      | None \<Rightarrow> c # replace_goal str (Some c) cs)"

text \<open>\<open>replace(/;;/, ';')\<close>: the first pair of semicolons becomes one.\<close>

fun replace_semis :: "string \<Rightarrow> string" where
  "replace_semis (a # b # rest) =
     (if a = CHR '';'' \<and> b = CHR '';'' then CHR '';'' # rest
      else a # replace_semis (b # rest))"
| "replace_semis s = s"

text \<open>\<open>replace(/;$/, '')\<close> and \<open>replace(/^;/, '')\<close>.\<close>

definition strip_last_semi :: "string \<Rightarrow> string" where
  "strip_last_semi s = (if s \<noteq> [] \<and> last s = CHR '';'' then butlast s else s)"

definition strip_first_semi :: "string \<Rightarrow> string" where
  "strip_first_semi s = (if s \<noteq> [] \<and> hd s = CHR '';'' then tl s else s)"

definition clearInSJN :: "string option \<Rightarrow> string \<Rightarrow> string" where
  "clearInSJN sjnArr str =
     strip_first_semi (strip_last_semi (replace_semis
       (replace_goal str None (case sjnArr of None \<Rightarrow> [] | Some s \<Rightarrow> s))))"

section \<open>The goal stack in the session\<close>

text \<open>
  The response object as far as the engine reads and writes it: the session value stored
  under \<open>convoGoalState\<close> (\<open>None\<close> while the session has none) and the flag
  \<open>goalStateChanged\<close>.
\<close>

record response =
  convoGoalState :: "string option"
  goalStateChanged :: bool

definition getGoalsRaw :: "response \<Rightarrow> string option" where
  "getGoalsRaw r = convoGoalState r"

definition getGoalNames :: "response \<Rightarrow> jsval list" where
  "getGoalNames r = arrToArrObjKey (sjnToArr (getGoalsRaw r))"

definition getGoalStates :: "response \<Rightarrow> jsobj list" where
  "getGoalStates r = arrToArrObj (sjnToArr (getGoalsRaw r))"

definition setGoalStates :: "response \<Rightarrow> jsobj list \<Rightarrow> response" where
  "setGoalStates r goalObjsArr = r\<lparr>convoGoalState := Some (arrToSJN (arrObjToArr goalObjsArr))\<rparr>"

definition appendGoal :: "response \<Rightarrow> string \<Rightarrow> response" where
  "appendGoal r goalName = r\<lparr>convoGoalState := Some (arrPush (getGoalsRaw r) goalName)\<rparr>"

text \<open>
  \<open>clearGoal\<close>: nothing happens for a falsy goal name; the session is written only when
  the length of the string changed.
\<close>

definition clearGoal :: "response \<Rightarrow> jsval \<Rightarrow> response" where
  "clearGoal r goalName =
     (if \<not> js_truthy goalName then r
      else
        (let curGoals = (case getGoalsRaw r of None \<Rightarrow> [] | Some s \<Rightarrow> s);
             updatedGoals = clearInSJN (Some curGoals) (js_to_string goalName)
         in if length curGoals = length updatedGoals then r
            else r\<lparr>convoGoalState := Some updatedGoals\<rparr>))"

definition hasGoal :: "response \<Rightarrow> string \<Rightarrow> bool" where
  "hasGoal r goalName = inSJN (getGoalsRaw r) goalName"

text \<open>\<open>topInArr\<close> and \<open>updateArr\<close>: index 0 is the last element, the top of the stack.\<close>

definition topInArr :: "'a list \<Rightarrow> int \<Rightarrow> 'a option" where
  "topInArr arr ndx =
     (if length arr = 0 \<or> ndx \<ge> int (length arr) \<or> ndx < 0 then None
      else Some (arr ! nat (int (length arr) - ndx - 1)))"

definition updateArr :: "'a list \<Rightarrow> int \<Rightarrow> 'a \<Rightarrow> ('a list) option" where
  "updateArr arr ndx newVal =
     (if length arr = 0 \<or> ndx < 0 \<or> ndx \<ge> int (length arr) then None
      else Some (arr[nat (int (length arr) - ndx - 1) := newVal]))"

definition mostRecentGoalStates :: "response \<Rightarrow> int \<Rightarrow> jsobj option" where
  "mostRecentGoalStates r goalNdx = topInArr (getGoalStates r) goalNdx"

definition updateMostRecentGoalStates :: "response \<Rightarrow> int \<Rightarrow> jsobj \<Rightarrow> response" where
  "updateMostRecentGoalStates r goalNdx goalWithState =
     (case updateArr (getGoalStates r) goalNdx goalWithState of
        Some goals \<Rightarrow> setGoalStates r goals
      | None \<Rightarrow> r)"

section \<open>Well-formed frames\<close>

text \<open>
  The frames of the round-trip property: distinct property names, a \<open>key\<close> that is a string
  matching \<open>[A-Za-z]+\<close>, and every other property a flag named in \<open>[a-z]+\<close> and set to
  \<open>true\<close>.
\<close>

definition frame_flags :: "jsobj \<Rightarrow> string list" where
  "frame_flags obj = filter (\<lambda>p. p \<noteq> ''key'') (map fst obj)"

definition frame_key :: "jsobj \<Rightarrow> string" where
  "frame_key obj = js_to_string (js_get obj ''key'')"

definition wf_frame :: "jsobj \<Rightarrow> bool" where
  "wf_frame obj =
     (distinct (map fst obj)
      \<and> (case map_of obj ''key'' of Some (JString k) \<Rightarrow> is_alpha_word k | _ \<Rightarrow> False)
      \<and> list_all (\<lambda>(p, v). p = ''key'' \<or> (is_lower_word p \<and> v = JBool True)) obj)"

text \<open>The text of an encoded frame, and the frame with \<open>key\<close> listed first.\<close>

definition encode_item :: "string \<Rightarrow> string list \<Rightarrow> string" where
  "encode_item k flags = k @ concat (map (\<lambda>p. CHR '':'' # p) flags)"

definition canonical_frame :: "jsobj \<Rightarrow> jsobj" where
  "canonical_frame obj =
     (''key'', JString (frame_key obj)) # map (\<lambda>p. (p, JBool True)) (frame_flags obj)"

section \<open>Interpolation\<close>

text \<open>
  \<open>\s\<close>: among the code units below 256 the white-space characters are 9 to 13, 32 and
  160.
\<close>

definition is_space :: "char \<Rightarrow> bool" where
  "is_space c = ((of_char c :: nat) \<in> {9, 10, 11, 12, 13, 32, 160})"

text \<open>\<open>_interpolate\<close>: the found text at the found position is replaced.\<close>

definition interpolate :: "string \<Rightarrow> string \<Rightarrow> nat \<Rightarrow> string \<Rightarrow> string" where
  "interpolate originalStr foundStr foundStrPos replaceStr =
     take foundStrPos originalStr @ replaceStr @ drop (foundStrPos + length foundStr) originalStr"

text \<open>
  \<open>exec\<close> of a regular expression without the global flag: the leftmost position at which
  the pattern matches, with the matched text and the captured group. The pattern is given by
  its match at the start of a string.
\<close>

fun regex_exec :: "(string \<Rightarrow> (string \<times> string) option) \<Rightarrow> string \<Rightarrow> (nat \<times> string \<times> string) option" where
  "regex_exec matchAt [] = map_option (\<lambda>(m, cap). (0, m, cap)) (matchAt [])"
| "regex_exec matchAt (c # cs) =
     (case matchAt (c # cs) of
        Some (m, cap) \<Rightarrow> Some (0, m, cap)
      | None \<Rightarrow> map_option (\<lambda>(i, m, cap). (Suc i, m, cap)) (regex_exec matchAt cs))"

text \<open>
  \<open>paramsRE\<close>: \<open>[[\<close>, the longest run of characters of the class, \<open>]]\<close>. Neither bracket is
  in the class, so a shorter run never helps.
\<close>

definition params_char :: "char \<Rightarrow> bool" where
  "params_char c =
     (is_alpha c \<or> is_digit c \<or> is_space c
      \<or> List.member [CHR ''_'', CHR '','', CHR ''+'', CHR ''-'', CHR ''*'', CHR ''/'',
                      CHR 0x5C, CHR ''.'', CHR ''('', CHR '')'', CHR 0x27] c)"

definition match_params :: "string \<Rightarrow> (string \<times> string) option" where
  "match_params s =
     (if take 2 s = ''[[''
      then (let name = takeWhile params_char (drop 2 s);
                rest = dropWhile params_char (drop 2 s)
            in if take 2 rest = '']]'' then Some (''[['' @ name @ '']]'', name) else None)
      else None)"

text \<open>
  \<open>_interpolateParamsFromStore\<close>: as long as the pattern is found, the match is replaced by
  what the store gives for the captured name. The store may change its state with each
  request. Nothing bounds the loop: when it does not end there is no result.
\<close>

partial_function (option) interpolateParamsFromStore ::
  "(string \<Rightarrow> (string \<times> string) option) \<Rightarrow> ('s \<Rightarrow> string \<Rightarrow> string \<times> 's) \<Rightarrow> 's \<Rightarrow> string
   \<Rightarrow> (string \<times> 's) option" where
  "interpolateParamsFromStore varExtractionRE store_get st str =
     (case regex_exec varExtractionRE str of
        None \<Rightarrow> Some (str, st)
      | Some (index, m, cap) \<Rightarrow>
          (case store_get st cap of
             (replaceStr, st') \<Rightarrow>
               interpolateParamsFromStore varExtractionRE store_get st'
                 (interpolate str m index replaceStr)))"

declare interpolateParamsFromStore.simps [code]

section \<open>The output manager\<close>

text \<open>
  The fragments that reach the queues are the results of \<open>_pickAndInterpolate\<close>; the
  operations of the manager take the drawn and filled fragment as the argument, and their
  callers in the engine run \<open>pickAndInterpolate\<close> first. The counter \<open>asked\<close> is a JavaScript
  number; the model counts in exact rationals, which agrees with the source on every
  comparison with 1 that the engine makes.
\<close>

record outputMgr =
  spokenRate :: "string option"
  asked :: rat
  sayQueue :: "string list"
  askQueue :: "string list"
  keepConversationRunning :: bool
  speaking :: bool

definition pauseStr :: string where
  \<open>pauseStr = '' <break time="500ms"/> ''\<close>

definition initialize :: "outputMgr \<Rightarrow> outputMgr" where
  "initialize om = om\<lparr>asked := 0, sayQueue := [], askQueue := [], keepConversationRunning := True\<rparr>"

definition setSpeaking :: "outputMgr \<Rightarrow> outputMgr" where
  "setSpeaking om = om\<lparr>speaking := True\<rparr>"

definition clearSpeaking :: "outputMgr \<Rightarrow> outputMgr" where
  "clearSpeaking om = om\<lparr>speaking := False\<rparr>"

definition isSpeaking :: "outputMgr \<Rightarrow> bool" where
  "isSpeaking om = speaking om"

definition say :: "outputMgr \<Rightarrow> string \<Rightarrow> bool \<Rightarrow> outputMgr" where
  "say om str quick =
     (let q = (if length (sayQueue om) > 0 \<and> \<not> quick then sayQueue om @ [pauseStr] else sayQueue om)
      in om\<lparr>sayQueue := q @ [str]\<rparr>)"

definition prompt :: "outputMgr \<Rightarrow> string \<Rightarrow> outputMgr" where
  "prompt om str = om\<lparr>askQueue := askQueue om @ [str], asked := asked om + 34 / 100\<rparr>"

definition ask :: "outputMgr \<Rightarrow> string \<Rightarrow> outputMgr" where
  "ask om str = om\<lparr>askQueue := askQueue om @ [str], asked := asked om + 1\<rparr>"

text \<open>The two \<open>forEach\<close> loops of \<open>sendFromQueue\<close> that build \<open>outBuffer\<close>.\<close>

definition say_step :: "string \<Rightarrow> string \<Rightarrow> string" where
  "say_step outBuffer str = (if length outBuffer = 0 then str else outBuffer @ '' '' @ str)"

definition ask_step :: "nat \<Rightarrow> string \<Rightarrow> nat \<times> string \<Rightarrow> string" where
  "ask_step askLen outBuffer e =
     (case e of (ndx, str) \<Rightarrow>
        if length outBuffer = 0 then str
        else if ndx = 0 then outBuffer @ pauseStr @ str
        else if int ndx = int askLen - 1 then outBuffer @ '' or '' @ str
        else outBuffer @ '', '' @ str)"

definition buildOutBuffer :: "outputMgr \<Rightarrow> string" where
  "buildOutBuffer om =
     foldl (ask_step (length (askQueue om))) (foldl say_step [] (sayQueue om))
       (enumerate 0 (askQueue om))"

text \<open>The prosody wrapper, applied when \<open>spokenRate\<close> is truthy.\<close>

definition wrapProsody :: "string option \<Rightarrow> string \<Rightarrow> string" where
  \<open>wrapProsody rate outBuffer =
     (case rate of
        None \<Rightarrow> outBuffer
      | Some r \<Rightarrow> if r = [] then outBuffer
                  else ''<prosody rate="'' @ r @ ''">'' @ outBuffer @ ''</prosody>'')\<close>

text \<open>
  \<open>replace(/\s&\s/g, ' and ')\<close>: every match from left to right, without overlap.
\<close>

fun replaceAmp :: "string \<Rightarrow> string" where
  "replaceAmp (a # b # c # rest) =
     (if is_space a \<and> b = CHR ''&'' \<and> is_space c then '' and '' @ replaceAmp rest
      else a # replaceAmp (b # c # rest))"
| "replaceAmp s = s"

text \<open>
  \<open>sendFromQueue\<close>: the optional argument is the fragment drawn from \<open>potResponses\<close> when
  that is truthy. The result holds the manager, the calls made on the platform request and
  the returned buffer.
\<close>

datatype platCall = PlatSay string | ShouldEndSession bool

definition sendFromQueue :: "outputMgr \<Rightarrow> string option \<Rightarrow> outputMgr \<times> platCall list \<times> string" where
  "sendFromQueue om potResponse =
     (let om1 = (case potResponse of None \<Rightarrow> om
                 | Some str \<Rightarrow> om\<lparr>sayQueue := sayQueue om @ [str]\<rparr>);
          outBuffer = replaceAmp (wrapProsody (spokenRate om1) (buildOutBuffer om1))
      in (om1,
          (if outBuffer \<noteq> [] then [PlatSay outBuffer] else [])
          @ (if keepConversationRunning om1 then [ShouldEndSession False] else []),
          outBuffer))"

text \<open>
  The joins that the specification gives for the fragments after the first: \<open>, \<close> before
  each but the last, \<open> or \<close> before the last.
\<close>

definition ask_tail :: "string list \<Rightarrow> string" where
  "ask_tail qs =
     (if qs = [] then []
      else concat (map (\<lambda>q. '', '' @ q) (butlast qs)) @ '' or '' @ last qs)"

section \<open>The goal loop\<close>

text \<open>
  What one turn changes and what a callback of the script can reach: the response object
  and the output manager of the engine.
\<close>

record turn =
  tResponse :: response
  tOutput :: outputMgr

text \<open>
  A resolver is a callback of the script. It receives the response, may act on the turn, and
  returns a value; the model covers the callbacks that return (or resolve to) \<open>true\<close>,
  \<open>false\<close> or nothing.
\<close>

datatype resolve_result = ResTrue | ResFalse | ResUndefined

type_synonym resolveCB = "turn \<Rightarrow> resolve_result \<times> turn"

text \<open>Candidate responses: one string or an array of strings. The empty string is falsy.\<close>

datatype potResponses = PotString string | PotArray "string list"

fun pot_truthy :: "potResponses option \<Rightarrow> bool" where
  "pot_truthy None = False"
| "pot_truthy (Some (PotString s)) = (s \<noteq> [])"
| "pot_truthy (Some (PotArray a)) = True"

record goalDef =
  goal_resolve :: "resolveCB option"
  goal_prompt :: "potResponses option"
  goal_ask :: "potResponses option"

text \<open>
  The part of the engine that the loop reads: the table of registered goals, and two parts
  that are not among the sources and are parameters here. \<open>pick\<close> is the fragment that the
  draw of \<open>utils.getRand\<close> takes from the candidate responses; \<open>sessionStore\<close> is the text that
  the store of the response (\<open>response._sessionStore()\<close>) gives for the name of a variable.
\<close>

record convoEngine =
  registeredGoals :: "string \<Rightarrow> goalDef option"
  pick :: "potResponses \<Rightarrow> response \<Rightarrow> string"
  sessionStore :: "response \<Rightarrow> string \<Rightarrow> string"

text \<open>
  \<open>_pickAndInterpolate\<close>: the drawn fragment with every reference \<open>[[name]]\<close> replaced by what
  the store gives, by the loop of \<open>_interpolateParamsFromStore\<close>. There is no result when that
  loop does not end.
\<close>

definition pickAndInterpolate :: "convoEngine \<Rightarrow> potResponses \<Rightarrow> response \<Rightarrow> string option" where
  "pickAndInterpolate convo potResponses r =
     map_option fst
       (interpolateParamsFromStore match_params (\<lambda>st name. (sessionStore convo r name, st)) ()
          (pick convo potResponses r))"

text \<open>
  The table is a plain object, so a name that it does not hold itself is still found when
  \<open>Object.prototype\<close> has it; what is found there has no \<open>resolve\<close>, \<open>prompt\<close> or \<open>ask\<close>.
\<close>

definition object_prototype_names :: "string list" where
  "object_prototype_names =
     [''constructor'', ''hasOwnProperty'', ''isPrototypeOf'', ''propertyIsEnumerable'',
      ''toLocaleString'', ''toString'', ''valueOf'', ''__defineGetter__'', ''__defineSetter__'',
      ''__lookupGetter__'', ''__lookupSetter__'', ''__proto__'']"

definition lookupGoalDef :: "convoEngine \<Rightarrow> string \<Rightarrow> goalDef option" where
  "lookupGoalDef convo key =
     (case registeredGoals convo key of
        Some d \<Rightarrow> Some d
      | None \<Rightarrow>
          if List.member object_prototype_names key
          then Some \<lparr>goal_resolve = None, goal_prompt = None, goal_ask = None\<rparr>
          else None)"

definition goalDefQueryable :: "goalDef \<Rightarrow> bool" where
  "goalDefQueryable goalDef = (pot_truthy (goal_prompt goalDef) \<or> pot_truthy (goal_ask goalDef))"

definition removeGoal :: "turn \<Rightarrow> jsval \<Rightarrow> turn" where
  "removeGoal t goalName = t\<lparr>tResponse := clearGoal (tResponse t) goalName\<rparr>"

text \<open>\<open>resolveGoal\<close>: the goal is removed when the callback's value is \<open>true\<close> or \<open>undefined\<close>.\<close>

definition resolveGoal :: "resolveCB \<Rightarrow> jsval \<Rightarrow> turn \<Rightarrow> turn" where
  "resolveGoal resolveCB goalNameToResolve t =
     (case resolveCB t of
        (result, t') \<Rightarrow>
          if result = ResTrue \<or> result = ResUndefined then removeGoal t' goalNameToResolve
          else t')"

text \<open>
  The variables of the loop. Frame objects are compared by reference: every call of
  \<open>getGoalStates\<close> builds new objects, so the frame that an iteration reads is a new object: \<open>allocated\<close>
  numbers the objects read so far, the newest being the frame of the current iteration, and
  \<open>lastGoalWithState\<close> holds the number of the frame kept from an earlier iteration (\<open>None\<close>
  for \<open>null\<close>). \<open>iterations\<close> counts the runs of the loop body and is not part of the source.
\<close>

record loop_state =
  turnOf :: turn
  moreGoalsToSeek :: bool
  lastGoalWithState :: "nat option"
  goalNdx :: int
  allocated :: nat
  iterations :: nat

definition loop_condition :: "loop_state \<Rightarrow> bool" where
  "loop_condition ls = (asked (tOutput (turnOf ls)) < 1 \<and> moreGoalsToSeek ls = True)"

text \<open>
  The head of an iteration: a changed goal state puts the cursor back, the cursor advances,
  and the frame that is read next is a new object.
\<close>

definition startIteration :: "loop_state \<Rightarrow> loop_state" where
  "startIteration ls =
     (let t0 = turnOf ls;
          changed = goalStateChanged (tResponse t0)
      in ls\<lparr>turnOf := (if changed then t0\<lparr>tResponse := (tResponse t0)\<lparr>goalStateChanged := False\<rparr>\<rparr>
                         else t0),
            goalNdx := (if changed then - 1 else goalNdx ls) + 1,
            allocated := Suc (allocated ls),
            iterations := Suc (iterations ls)\<rparr>)"

text \<open>
  A queryable goal that has not been queried: the prompt (or else the question) is drawn,
  filled in and queued, the frame is marked and written back at the cursor. When the
  interpolation does not return, neither does the iteration.
\<close>

definition queryGoal :: "convoEngine \<Rightarrow> goalDef \<Rightarrow> jsobj \<Rightarrow> int \<Rightarrow> turn \<Rightarrow> turn option" where
  "queryGoal convo tgtGoalDef goalWithState ndx t =
     (let om = tOutput t;
          queued = (if pot_truthy (goal_prompt tgtGoalDef)
                    then map_option (prompt om)
                           (pickAndInterpolate convo (the (goal_prompt tgtGoalDef)) (tResponse t))
                    else if pot_truthy (goal_ask tgtGoalDef)
                    then map_option (ask om)
                           (pickAndInterpolate convo (the (goal_ask tgtGoalDef)) (tResponse t))
                    else Some om);
          queried = js_set goalWithState ''queried'' (JBool True)
      in case queued of
           None \<Rightarrow> None
         | Some om' \<Rightarrow>
             Some (t\<lparr>tOutput := om',
                     tResponse := updateMostRecentGoalStates (tResponse t) ndx queried\<rparr>))"

text \<open>The rest of an iteration, for the frame at the cursor.\<close>

definition meetGoal :: "convoEngine \<Rightarrow> jsobj \<Rightarrow> loop_state \<Rightarrow> loop_state option" where
  "meetGoal convo goalWithState ls =
     (let key = js_get goalWithState ''key'';
          t = turnOf ls;
          ls2 = ls\<lparr>lastGoalWithState := Some (allocated ls)\<rparr>
      in case lookupGoalDef convo (js_to_string key) of
           None \<Rightarrow> Some (ls2\<lparr>moreGoalsToSeek := False\<rparr>)
         | Some tgtGoalDef \<Rightarrow>
             (case goal_resolve tgtGoalDef of
                Some resolveCB \<Rightarrow> Some (ls2\<lparr>turnOf := resolveGoal resolveCB key t\<rparr>)
              | None \<Rightarrow>
                  if goalDefQueryable tgtGoalDef \<and> js_truthy (js_get goalWithState ''queried'')
                  then Some ls2
                  else if goalDefQueryable tgtGoalDef
                            \<and> \<not> js_truthy (js_get goalWithState ''queried'')
                  then map_option (\<lambda>t'. ls2\<lparr>turnOf := t'\<rparr>)
                         (queryGoal convo tgtGoalDef goalWithState (goalNdx ls) t)
                  else Some ls2))"

definition loop_body :: "convoEngine \<Rightarrow> loop_state \<Rightarrow> loop_state option" where
  "loop_body convo ls =
     (let ls1 = startIteration ls
      in case mostRecentGoalStates (tResponse (turnOf ls1)) (goalNdx ls1) of
           None \<Rightarrow> Some (ls1\<lparr>moreGoalsToSeek := False\<rparr>)
         | Some goalWithState \<Rightarrow>
             if Some (allocated ls1) = lastGoalWithState ls1
             then Some (ls1\<lparr>moreGoalsToSeek := False\<rparr>)
             else meetGoal convo goalWithState ls1)"

text \<open>
  Modelled from the spec: \<open>utils.promiseWhile\<close>, which is not among the sources, as the
  \<open>while\<close> loop of the goal loop in the specification: the action runs as long as the
  condition holds. A loop that never ends has no result (\<open>None\<close>), and neither has a loop
  whose action does not return.
\<close>

partial_function (option) promiseWhile :: "('s \<Rightarrow> bool) \<Rightarrow> ('s \<Rightarrow> 's option) \<Rightarrow> 's \<Rightarrow> 's option" where
  "promiseWhile condition action s =
     (if condition s
      then (case action s of None \<Rightarrow> None | Some s' \<Rightarrow> promiseWhile condition action s')
      else Some s)"

declare promiseWhile.simps [code]

definition loop_start :: "turn \<Rightarrow> loop_state" where
  "loop_start t =
     \<lparr>turnOf = t, moreGoalsToSeek = True, lastGoalWithState = None, goalNdx = - 1,
      allocated = 0, iterations = 0\<rparr>"

definition goalLoop :: "convoEngine \<Rightarrow> turn \<Rightarrow> loop_state option" where
  "goalLoop convo t = promiseWhile loop_condition (loop_body convo) (loop_start t)"

text \<open>
  \<open>_followGoals\<close>: the callback of the intent runs first, when there is one, and its goal is
  removed on success; then the loop.
\<close>

definition followGoals :: "convoEngine \<Rightarrow> turn \<Rightarrow> jsval \<Rightarrow> resolveCB option \<Rightarrow> loop_state option" where
  "followGoals convo t goalName intentResolveCB =
     goalLoop convo
       (case intentResolveCB of
          Some cb \<Rightarrow> resolveGoal cb goalName t
        | None \<Rightarrow> t)"

text \<open>
  \<open>_processIntent\<close>: a fresh response on the session value, the output manager initialised,
  the goals followed, the queue flushed and the manager initialised again.
\<close>

definition processIntent ::
  "convoEngine \<Rightarrow> string option \<Rightarrow> outputMgr \<Rightarrow> jsval \<Rightarrow> resolveCB option
   \<Rightarrow> (turn \<times> platCall list) option" where
  "processIntent convo session om goalName intentResolveCB =
     (case followGoals convo
             \<lparr>tResponse = \<lparr>convoGoalState = session, goalStateChanged = False\<rparr>,
              tOutput = initialize (setSpeaking om)\<rparr> goalName intentResolveCB of
        None \<Rightarrow> None
      | Some ls \<Rightarrow>
          (case sendFromQueue (tOutput (turnOf ls)) None of
             (om', calls, outBuffer) \<Rightarrow>
               Some ((turnOf ls)\<lparr>tOutput := clearSpeaking (initialize om')\<rparr>, calls)))"

text \<open>\<open>addGoal\<close> of the engine: the goal is appended (no alert hook is installed).\<close>

definition addGoal :: "turn \<Rightarrow> string \<Rightarrow> turn" where
  "addGoal t goalName = t\<lparr>tResponse := appendGoal (tResponse t) goalName\<rparr>"

section \<open>Predicates of the loop properties\<close>

text \<open>No semicolon in any property name or value of a frame object.\<close>

definition semi_free :: "jsobj \<Rightarrow> bool" where
  "semi_free obj = (\<forall>(p, v)\<in>set obj. CHR '';'' \<notin> set p \<and> CHR '';'' \<notin> set (js_to_string v))"

definition stack_size :: "loop_state \<Rightarrow> nat" where
  "stack_size ls = length (getGoalStates (tResponse (turnOf ls)))"

definition asked_of :: "loop_state \<Rightarrow> rat" where
  "asked_of ls = asked (tOutput (turnOf ls))"

definition stack_of :: "loop_state \<Rightarrow> jsobj list" where
  "stack_of ls = getGoalStates (tResponse (turnOf ls))"

definition asked_queue :: "loop_state \<Rightarrow> string list" where
  "asked_queue ls = askQueue (tOutput (turnOf ls))"

text \<open>
  The candidates that the loop queues for a goal without resolver: the prompt when there is
  one, else the question. The prompts of a table return when the interpolation of these
  candidates returns on every response.
\<close>

definition query_text :: "goalDef \<Rightarrow> potResponses option" where
  "query_text d =
     (if pot_truthy (goal_prompt d) then goal_prompt d
      else if pot_truthy (goal_ask d) then goal_ask d
      else None)"

definition prompts_return :: "convoEngine \<Rightarrow> bool" where
  "prompts_return convo =
     (\<forall>key d p r. registeredGoals convo key = Some d \<longrightarrow> goal_resolve d = None \<longrightarrow>
        query_text d = Some p \<longrightarrow> pickAndInterpolate convo p r \<noteq> None)"

text \<open>
  A callback keeps the stack when it leaves the goal stack no longer than it found it and
  does not set \<open>goalStateChanged\<close>; a table is quiet when all its resolvers do.
\<close>

definition keeps_stack :: "resolveCB \<Rightarrow> bool" where
  "keeps_stack cb =
     (\<forall>t. case cb t of (res, t') \<Rightarrow>
        length (getGoalStates (tResponse t')) \<le> length (getGoalStates (tResponse t))
        \<and> (goalStateChanged (tResponse t') \<longrightarrow> goalStateChanged (tResponse t)))"

definition quiet_goals :: "convoEngine \<Rightarrow> bool" where
  "quiet_goals convo =
     (\<forall>key d cb. registeredGoals convo key = Some d \<longrightarrow> goal_resolve d = Some cb \<longrightarrow> keeps_stack cb)"

text \<open>
  A callback is modest when one call of it never lowers \<open>asked\<close> and raises it by at most 1.
\<close>

definition modest :: "resolveCB \<Rightarrow> bool" where
  "modest cb =
     (\<forall>t. case cb t of (res, t') \<Rightarrow>
        asked (tOutput t) \<le> asked (tOutput t') \<and> asked (tOutput t') \<le> asked (tOutput t) + 1)"

definition modest_goals :: "convoEngine \<Rightarrow> bool" where
  "modest_goals convo =
     (\<forall>key d cb. registeredGoals convo key = Some d \<longrightarrow> goal_resolve d = Some cb \<longrightarrow> modest cb)"

text \<open>What holds of the loop variables between iterations.\<close>

definition loop_inv :: "loop_state \<Rightarrow> bool" where
  "loop_inv ls =
     ((\<forall>r. lastGoalWithState ls = Some r \<longrightarrow> r \<le> allocated ls)
      \<and> (goalStateChanged (tResponse (turnOf ls)) \<longrightarrow> goalNdx ls = - 1)
      \<and> - 1 \<le> goalNdx ls)"

section \<open>Example scripts\<close>

text \<open>A draw that takes the first candidate, and a store without variables.\<close>

definition first_candidate :: "potResponses \<Rightarrow> response \<Rightarrow> string" where
  "first_candidate p r =
     (case p of PotString s \<Rightarrow> s | PotArray a \<Rightarrow> (case a of [] \<Rightarrow> [] | x # _ \<Rightarrow> x))"

definition no_variables :: "response \<Rightarrow> string \<Rightarrow> string" where
  "no_variables r name = ''undefined''"

definition fresh_output :: outputMgr where
  "fresh_output =
     \<lparr>spokenRate = None, asked = 0, sayQueue = [], askQueue = [],
      keepConversationRunning = True, speaking = True\<rparr>"

definition turn_on :: "string \<Rightarrow> turn" where
  "turn_on stack =
     \<lparr>tResponse = \<lparr>convoGoalState = Some stack, goalStateChanged = False\<rparr>, tOutput = fresh_output\<rparr>"

text \<open>
  The dependency chain of scenario S3: the resolver of \<open>checkInDetails\<close> finds the blood
  sugar level missing, queues the goal \<open>bloodSugar\<close> through the engine, marks the goal state
  as changed and returns \<open>false\<close>; \<open>bloodSugar\<close> is a goal with a prompt.
\<close>

definition checkInDetails_resolver :: resolveCB where
  "checkInDetails_resolver t =
     (ResFalse,
      (addGoal t ''bloodSugar'')
        \<lparr>tResponse := (tResponse (addGoal t ''bloodSugar''))\<lparr>goalStateChanged := True\<rparr>\<rparr>)"

definition checkIn_script :: convoEngine where
  "checkIn_script =
     \<lparr>registeredGoals =
        (\<lambda>key. if key = ''checkInDetails''
                then Some \<lparr>goal_resolve = Some checkInDetails_resolver, goal_prompt = None,
                           goal_ask = None\<rparr>
                else if key = ''bloodSugar''
                then Some \<lparr>goal_resolve = None,
                           goal_prompt = Some (PotString ''What was your blood sugar level?''),
                           goal_ask = None\<rparr>
                else None),
      pick = first_candidate, sessionStore = no_variables\<rparr>"

text \<open>
  A script with a resolver goal \<open>k\<close> whose callback only returns \<open>true\<close>, and a prompt goal
  \<open>b\<close>.
\<close>

definition succeed :: resolveCB where
  "succeed t = (ResTrue, t)"

definition plain_script :: convoEngine where
  "plain_script =
     \<lparr>registeredGoals =
        (\<lambda>key. if key = ''k''
                then Some \<lparr>goal_resolve = Some succeed, goal_prompt = None,
                           goal_ask = None\<rparr>
                else if key = ''b''
                then Some \<lparr>goal_resolve = None, goal_prompt = Some (PotString ''B?''),
                           goal_ask = None\<rparr>
                else None),
      pick = first_candidate, sessionStore = no_variables\<rparr>"

text \<open>
  The same goals with a prompt that greets by the session variable \<open>name\<close>, which the store
  holds as \<open>Ann\<close>.
\<close>

definition named_store :: "response \<Rightarrow> string \<Rightarrow> string" where
  "named_store r name = (if name = ''name'' then ''Ann'' else ''undefined'')"

definition greeting_script :: convoEngine where
  "greeting_script =
     \<lparr>registeredGoals =
        (\<lambda>key. if key = ''k''
                then Some \<lparr>goal_resolve = Some succeed, goal_prompt = None,
                           goal_ask = None\<rparr>
                else if key = ''b''
                then Some \<lparr>goal_resolve = None,
                           goal_prompt = Some (PotString ''Hello [[name]], which day?''),
                           goal_ask = None\<rparr>
                else None),
      pick = first_candidate, sessionStore = named_store\<rparr>"

text \<open>
  A prompt that repeats the session variable \<open>word\<close>, on a session in which the variable
  holds the text \<open>[[word]]\<close> itself.
\<close>

definition echo_store :: "response \<Rightarrow> string \<Rightarrow> string" where
  "echo_store r name = (if name = ''word'' then ''[[word]]'' else ''undefined'')"

definition echo_script :: convoEngine where
  "echo_script =
     \<lparr>registeredGoals =
        (\<lambda>key. if key = ''b''
                then Some \<lparr>goal_resolve = None,
                           goal_prompt = Some (PotString ''Did you say [[word]]?''),
                           goal_ask = None\<rparr>
                else None),
      pick = first_candidate, sessionStore = echo_store\<rparr>"

text \<open>A callback of an intent that asks two questions through the output manager.\<close>

definition asks_twice :: resolveCB where
  "asks_twice t = (ResUndefined, t\<lparr>tOutput := ask (ask (tOutput t) ''Which day?'') ''Which city?''\<rparr>)"

section \<open>Intent dispatch\<close>

record intentDef =
  intent_name :: "string option"
  intent_goal :: "string option"
  intent_resolve :: "resolveCB option"

text \<open>
  \<open>intentDef.goal == currentGoalState.key\<close>: the goal is a string, the key a string or, when a
  flag named \<open>key\<close> has overwritten it, a boolean. A string equals a boolean loosely when its
  numeric value is that of the boolean; the conversion of a string to a number belongs to the
  language and is a parameter (\<open>None\<close> when the value is not a finite number).
\<close>

definition loose_eq :: "(string \<Rightarrow> rat option) \<Rightarrow> string \<Rightarrow> jsval \<Rightarrow> bool" where
  "loose_eq toNumber s v =
     (case v of
        JString t \<Rightarrow> s = t
      | JBool b \<Rightarrow> toNumber s = Some (if b then 1 else 0)
      | JUndefined \<Rightarrow> False)"

text \<open>\<open>intentDef.goal && intentDef.goal == currentGoalState.key\<close>\<close>

definition goal_matches :: "(string \<Rightarrow> rat option) \<Rightarrow> jsobj \<Rightarrow> intentDef \<Rightarrow> bool" where
  "goal_matches toNumber currentGoalState intentDef =
     (case intent_goal intentDef of
        None \<Rightarrow> False
      | Some g \<Rightarrow> g \<noteq> [] \<and> loose_eq toNumber g (js_get currentGoalState ''key''))"

text \<open>
  The \<open>while (true)\<close> loop of \<open>processAllIntents\<close>: the frame at depth \<open>ndx\<close> is read anew
  from the session, the definitions are tried in their order, and the walk ends below the
  stack.
\<close>

function walkGoals :: "(string \<Rightarrow> rat option) \<Rightarrow> response \<Rightarrow> intentDef list \<Rightarrow> int \<Rightarrow> intentDef option" where
  "walkGoals toNumber tmpResp intentDefArr ndx =
     (case mostRecentGoalStates tmpResp ndx of
        None \<Rightarrow> None
      | Some currentGoalState \<Rightarrow>
          (case List.find (goal_matches toNumber currentGoalState) intentDefArr of
             Some intentDef \<Rightarrow> Some intentDef
           | None \<Rightarrow> walkGoals toNumber tmpResp intentDefArr (ndx + 1)))"
  by pat_completeness auto
termination
  by (relation "measure (\<lambda>(toNumber, tmpResp, intentDefArr, ndx).
         nat (int (length (getGoalStates tmpResp)) - ndx))")
     (auto simp: mostRecentGoalStates_def topInArr_def split: if_splits)

text \<open>
  The choice of \<open>processAllIntents\<close>: the definition and whether the warning was logged.
  With no definition at all, reading \<open>intentDefArr[0].goal\<close> throws.
\<close>

datatype js_error = TypeError

definition selectIntentDef ::
  "(string \<Rightarrow> rat option) \<Rightarrow> response \<Rightarrow> intentDef list \<Rightarrow> js_error + intentDef \<times> bool" where
  "selectIntentDef toNumber tmpResp intentDefArr =
     (if length intentDefArr = 1 then Inr (intentDefArr ! 0, False)
      else
        (case walkGoals toNumber tmpResp intentDefArr 0 of
           Some intentDef \<Rightarrow> Inr (intentDef, False)
         | None \<Rightarrow>
             (case intentDefArr of
                [] \<Rightarrow> Inl TypeError
              | intentDef # _ \<Rightarrow> Inr (intentDef, True))))"

text \<open>
  \<open>processAllIntents\<close>: the slots of the request are copied into the session first (a slot
  named \<open>convoGoalState\<close> replaces the stack), then the chosen definition is processed. A slot
  value is \<open>None\<close> when the request has none.
\<close>

definition processAllIntents ::
  "convoEngine \<Rightarrow> (string \<Rightarrow> rat option) \<Rightarrow> (string \<times> string option) list \<Rightarrow> string option
   \<Rightarrow> outputMgr \<Rightarrow> intentDef list \<Rightarrow> js_error + (turn \<times> platCall list) option \<times> bool" where
  "processAllIntents convo toNumber slots session om intentDefArr =
     (let session' = (case map_of slots ''convoGoalState'' of None \<Rightarrow> session | Some v \<Rightarrow> v)
      in case selectIntentDef toNumber
                \<lparr>convoGoalState = session', goalStateChanged = False\<rparr> intentDefArr of
           Inl e \<Rightarrow> Inl e
         | Inr (intentDef, warned) \<Rightarrow>
             Inr (processIntent convo session' om
                    (case intent_goal intentDef of None \<Rightarrow> JUndefined | Some g \<Rightarrow> JString g)
                    (intent_resolve intentDef),
                  warned))"

text \<open>
  The walk in the words of the specification: the frames from the top of the stack down, and
  for each frame the first definition whose goal is the key of the frame.
\<close>

primrec spec_walk :: "(string \<Rightarrow> rat option) \<Rightarrow> intentDef list \<Rightarrow> jsobj list \<Rightarrow> intentDef option" where
  "spec_walk toNumber intentDefArr [] = None"
| "spec_walk toNumber intentDefArr (frame # below) =
     (case List.find (goal_matches toNumber frame) intentDefArr of
        Some intentDef \<Rightarrow> Some intentDef
      | None \<Rightarrow> spec_walk toNumber intentDefArr below)"

text \<open>An intent definition for the utterance \<open>Yes\<close> that belongs to the goal \<open>g\<close>.\<close>

definition yes_in :: "string \<Rightarrow> intentDef" where
  "yes_in g = \<lparr>intent_name = None, intent_goal = Some g, intent_resolve = None\<rparr>"

section \<open>The script parser\<close>

text \<open>\<open>/(\d+)/\<close>: the longest run of digits.\<close>

definition match_digits :: "string \<Rightarrow> (string \<times> string) option" where
  "match_digits s =
     (let run = takeWhile is_digit s in if run = [] then None else Some (run, run))"

text \<open>
  \<open>forPunctuation\<close>: commas and question marks are removed, then digit runs are replaced by
  \<open>utils.getNumAsStr\<close>, which is not among the sources and is a parameter.
\<close>

definition forPunctuation :: "(string \<Rightarrow> string) \<Rightarrow> string list \<Rightarrow> string list option" where
  "forPunctuation getNumAsStr userSpeech =
     those (map (\<lambda>userSpeechItem.
                   map_option fst
                     (interpolateParamsFromStore match_digits (\<lambda>st num. (getNumAsStr num, st)) ()
                        (filter (\<lambda>c. c \<noteq> CHR '','' \<and> c \<noteq> CHR ''?'') userSpeechItem)))
              userSpeech)"

text \<open>
  The key types: a type name, or an object with a type, values and sample values. A name that
  the table does not hold itself is found on \<open>Object.prototype\<close> when that has it.
\<close>

datatype keyType =
  KTString string
  | KTObject (kt_type: "string option") (kt_values: "string list option")
      (kt_sampleValues: "string list option")

datatype ktValue = KTOwn keyType | KTInherited | KTAbsent

definition kt_lookup :: "(string \<Rightarrow> keyType option) \<Rightarrow> string \<Rightarrow> ktValue" where
  "kt_lookup keyTypes name =
     (case keyTypes name of
        Some v \<Rightarrow> KTOwn v
      | None \<Rightarrow> if List.member object_prototype_names name then KTInherited else KTAbsent)"

fun kt_truthy :: "ktValue \<Rightarrow> bool" where
  "kt_truthy (KTOwn (KTString s)) = (s \<noteq> [])"
| "kt_truthy (KTOwn (KTObject t v sv)) = True"
| "kt_truthy KTInherited = True"
| "kt_truthy KTAbsent = False"

definition trim :: "string \<Rightarrow> string" where
  "trim s = rev (dropWhile is_space (rev (dropWhile is_space s)))"

text \<open>
  The store of \<open>forSlots\<close>: the sample values of the slot, trimmed and written back, or \<open>-\<close>;
  a name without a type is logged and becomes a literal.
\<close>

definition literalSampleValuesStore :: "(string \<Rightarrow> keyType option) \<Rightarrow> string \<Rightarrow> string \<times> (string \<Rightarrow> keyType option)" where
  "literalSampleValuesStore keyTypes inStr =
     (case kt_lookup keyTypes inStr of
        KTOwn (KTObject t v (Some samples)) \<Rightarrow>
          (''{'' @ js_join ''|'' (map trim samples) @ ''|'' @ inStr @ ''}'',
           keyTypes(inStr \<mapsto> KTObject t v (Some (map trim samples))))
      | found \<Rightarrow>
          if \<not> kt_truthy found
          then (''{-|'' @ inStr @ ''}'', keyTypes(inStr \<mapsto> KTString ''AMAZON.LITERAL''))
          else (''{-|'' @ inStr @ ''}'', keyTypes))"

fun forSlots :: "(string \<Rightarrow> keyType option) \<Rightarrow> string list \<Rightarrow> (string list \<times> (string \<Rightarrow> keyType option)) option" where
  "forSlots keyTypes [] = Some ([], keyTypes)"
| "forSlots keyTypes (userSpeechItem # rest) =
     (case interpolateParamsFromStore match_params literalSampleValuesStore keyTypes userSpeechItem of
        None \<Rightarrow> None
      | Some (item', keyTypes') \<Rightarrow>
          (case forSlots keyTypes' rest of
             None \<Rightarrow> None
           | Some (rest', keyTypes'') \<Rightarrow> Some (item' # rest', keyTypes'')))"

text \<open>
  \<open>toLowerCase\<close> on code units below 256 and \<open>indexOf\<close>: the first position at which the
  phrase starts.
\<close>

definition lower_char :: "char \<Rightarrow> char" where
  "lower_char c =
     (let n = (of_char c :: nat)
      in if (65 \<le> n \<and> n \<le> 90) \<or> (192 \<le> n \<and> n \<le> 222 \<and> n \<noteq> 215) then char_of (n + 32) else c)"

definition toLowerCase :: "string \<Rightarrow> string" where
  "toLowerCase s = map lower_char s"

fun indexOf :: "string \<Rightarrow> string \<Rightarrow> nat option" where
  "indexOf [] phrase = (if phrase = [] then Some 0 else None)"
| "indexOf (c # cs) phrase =
     (if take (length phrase) (c # cs) = phrase then Some 0
      else map_option Suc (indexOf cs phrase))"

text \<open>
  \<open>forPhraseEquivalents\<close>: for one utterance, every phrase of every set that is found in it
  gives one new utterance for each other phrase of the set.
\<close>

definition phraseVariants :: "string \<Rightarrow> string list \<Rightarrow> nat \<times> string \<Rightarrow> string list" where
  "phraseVariants userSpeechItem equivSets e =
     (case e of (phraseNdx, phrase) \<Rightarrow>
        (case indexOf (toLowerCase userSpeechItem) (toLowerCase phrase) of
           None \<Rightarrow> []
         | Some phrasePos \<Rightarrow>
             map (\<lambda>(phraseToIncludeNdx, phraseToInclude).
                    interpolate userSpeechItem phrase phrasePos phraseToInclude)
               (filter (\<lambda>(phraseToIncludeNdx, phraseToInclude). phraseToIncludeNdx \<noteq> phraseNdx)
                  (enumerate 0 equivSets))))"

definition setVariants :: "string \<Rightarrow> string list \<Rightarrow> string list" where
  "setVariants userSpeechItem equivSets =
     concat (map (phraseVariants userSpeechItem equivSets) (enumerate 0 equivSets))"

definition itemVariants :: "string list list \<Rightarrow> string \<Rightarrow> string list" where
  "itemVariants phraseEquivalents userSpeechItem =
     concat (map (setVariants userSpeechItem) phraseEquivalents)"

text \<open>
  The loop over the first \<open>max\<close> utterances (\<open>maxNdx\<close> here); the new ones are pushed onto
  the same array.
\<close>

function expandLoop :: "string list list \<Rightarrow> nat \<Rightarrow> nat \<Rightarrow> string list \<Rightarrow> string list" where
  "expandLoop phraseEquivalents ndx maxNdx userSpeech =
     (if ndx < maxNdx
      then expandLoop phraseEquivalents (ndx + 1) maxNdx
             (userSpeech @ itemVariants phraseEquivalents (userSpeech ! ndx))
      else userSpeech)"
  by pat_completeness auto
termination
  by (relation "measure (\<lambda>(phraseEquivalents, ndx, maxNdx, userSpeech). maxNdx - ndx)") auto

definition forPhraseEquivalents :: "string list list \<Rightarrow> string list \<Rightarrow> string list" where
  "forPhraseEquivalents phraseEquivalents userSpeech =
     expandLoop phraseEquivalents 0 (length userSpeech) userSpeech"

text \<open>
  \<open>match(/\|[a-zA-Z]*}/g)\<close> with the first and last character sliced off: the names between
  \<open>|\<close> and \<open>}\<close>, from left to right.
\<close>

function extractedVars :: "string \<Rightarrow> string list" where
  "extractedVars [] = []"
| "extractedVars (c # cs) =
     (if c = CHR ''|'' \<and> take 1 (dropWhile is_alpha cs) = ''}''
      then takeWhile is_alpha cs # extractedVars (drop 1 (dropWhile is_alpha cs))
      else extractedVars cs)"
  by pat_completeness auto
termination
  by (relation "measure length") (auto simp: le_imp_less_Suc length_dropWhile_le le_trans[OF diff_le_self])

text \<open>
  \<open>extractParamsFromSpeech\<close>: every name found that has a truthy key type enters the result
  with the type, or with the \<open>type\<close> field of an object.
\<close>

datatype slotType = SlotCode string | SlotUndefined | SlotInherited

definition addParam :: "(string \<Rightarrow> keyType option) \<Rightarrow> (string \<Rightarrow> slotType option) \<Rightarrow> string \<Rightarrow> (string \<Rightarrow> slotType option)" where
  "addParam keyTypes expectedParams ev =
     (if length ev = 0 then expectedParams
      else
        (case kt_lookup keyTypes ev of
           KTOwn (KTString s) \<Rightarrow> if s \<noteq> [] then expectedParams(ev \<mapsto> SlotCode s) else expectedParams
         | KTOwn (KTObject t v sv) \<Rightarrow>
             expectedParams(ev \<mapsto> (case t of None \<Rightarrow> SlotUndefined | Some code \<Rightarrow> SlotCode code))
         | KTInherited \<Rightarrow> expectedParams(ev \<mapsto> SlotInherited)
         | KTAbsent \<Rightarrow> expectedParams))"

definition extractParamsFromSpeech :: "(string \<Rightarrow> keyType option) \<Rightarrow> string list \<Rightarrow> (string \<Rightarrow> slotType option)" where
  "extractParamsFromSpeech keyTypes userSpeech =
     foldl (\<lambda>expectedParams speechStr. foldl (addParam keyTypes) expectedParams (extractedVars speechStr))
       Map.empty userSpeech"

text \<open>
  The utterances and slots that \<open>_registerIntentDef\<close> hands to the platforms: punctuation,
  slots, phrase equivalents, then the extraction from the utterances produced.
\<close>

definition intentParams ::
  "(string \<Rightarrow> string) \<Rightarrow> (string \<Rightarrow> keyType option) \<Rightarrow> string list list \<Rightarrow> string list
   \<Rightarrow> (string list \<times> (string \<Rightarrow> slotType option)) option" where
  "intentParams getNumAsStr keyTypes phraseEquivalents userSpeech =
     (case forPunctuation getNumAsStr userSpeech of
        None \<Rightarrow> None
      | Some spoken \<Rightarrow>
          (case forSlots keyTypes spoken of
             None \<Rightarrow> None
           | Some (slotted, keyTypes') \<Rightarrow>
               (let utterances = forPhraseEquivalents phraseEquivalents slotted
                in Some (utterances, extractParamsFromSpeech keyTypes' utterances))))"

section \<open>Predicates of the slot properties\<close>

text \<open>A text that occurs in a string, and the reference to a slot as the author writes it.\<close>

definition occurs_in :: "string \<Rightarrow> string \<Rightarrow> bool" where
  "occurs_in x s = (\<exists>u v. s = u @ x @ v)"

definition slot_ref :: "string \<Rightarrow> string" where
  "slot_ref name = ''[['' @ name @ '']]''"

definition var_segment :: "string \<Rightarrow> string" where
  "var_segment name = ''|'' @ name @ ''}''"

text \<open>The type that a result of the pipeline gives to a slot name.\<close>

definition slot_of :: "(string list \<times> (string \<Rightarrow> slotType option)) option \<Rightarrow> string \<Rightarrow> slotType option" where
  "slot_of r name = (case r of None \<Rightarrow> None | Some (utterances, slots) \<Rightarrow> slots name)"

text \<open>
  The names that a string references: at every position where \<open>paramsRE\<close> matches, the name
  between the brackets. The names that the author wrote are those of the utterances given.
\<close>

fun refNames :: "string \<Rightarrow> string list" where
  "refNames [] = []"
| "refNames (c # cs) =
     (case match_params (c # cs) of
        Some (m, name) \<Rightarrow> name # refNames cs
      | None \<Rightarrow> refNames cs)"

definition written_refs :: "string list \<Rightarrow> string list" where
  "written_refs userSpeech = concat (map refNames userSpeech)"

text \<open>A table whose sample values hold no opening bracket and no closing brace.\<close>

definition tame_samples :: "(string \<Rightarrow> keyType option) \<Rightarrow> bool" where
  "tame_samples keyTypes =
     (\<forall>name t v samples. keyTypes name = Some (KTObject t v (Some samples)) \<longrightarrow>
        (\<forall>s\<in>set samples. CHR ''['' \<notin> set s \<and> CHR ''}'' \<notin> set s))"

text \<open>
  Three ways in which a slot name can arise that the author did not write as a reference,
  each ruled out by one condition. \<open>keeps_refs\<close>: every reference to a name of letters in an
  utterance as \<open>forPunctuation\<close> leaves it (\<open>spoken\<close>) is a reference of the utterances given.
  \<open>groups_referenced\<close>: every key-type name that stands there between \<open>|\<close> and \<open>}\<close>, as at the
  end of the word group \<open>{town|city}\<close>, is referenced in the utterances given.
  \<open>adds_no_slot\<close>: every key-type name between \<open>|\<close> and \<open>}\<close> in an utterance that the
  phrase-equivalent expansion adds stands so in an utterance that the expansion was given.
\<close>

definition keeps_refs :: "string list \<Rightarrow> string list \<Rightarrow> bool" where
  "keeps_refs userSpeech spoken =
     (\<forall>u\<in>set spoken. \<forall>n\<in>set (refNames u).
        is_alpha_word n \<longrightarrow> n \<in> set (written_refs userSpeech))"

definition groups_referenced :: "(string \<Rightarrow> keyType option) \<Rightarrow> string list \<Rightarrow> string list \<Rightarrow> bool" where
  "groups_referenced keyTypes userSpeech spoken =
     (\<forall>u\<in>set spoken. \<forall>n\<in>set (extractedVars u).
        n \<noteq> [] \<and> kt_truthy (kt_lookup keyTypes n) \<longrightarrow> n \<in> set (written_refs userSpeech))"

definition adds_no_slot :: "(string \<Rightarrow> keyType option) \<Rightarrow> string list list \<Rightarrow> string list \<Rightarrow> bool" where
  "adds_no_slot keyTypes phraseEquivalents slotted =
     (\<forall>v\<in>set (concat (map (itemVariants phraseEquivalents) slotted)). \<forall>n\<in>set (extractedVars v).
        n \<noteq> [] \<and> kt_truthy (kt_lookup keyTypes n) \<longrightarrow>
        n \<in> set (concat (map extractedVars slotted)))"

text \<open>
  What the slot rewriting keeps true of an utterance \<open>s\<close> made from \<open>orig\<close>: a name between
  \<open>|\<close> and \<open>}\<close> in \<open>s\<close> stands so in \<open>orig\<close> or is referenced there, and a reference still in
  \<open>s\<close> is a reference of \<open>orig\<close>.
\<close>

definition slots_sound :: "string \<Rightarrow> string \<Rightarrow> bool" where
  "slots_sound orig s =
     (\<forall>n. is_alpha_word n \<and> occurs_in (var_segment n) s \<longrightarrow>
        occurs_in (slot_ref n) orig \<or> occurs_in (var_segment n) orig)"

definition refs_kept :: "string \<Rightarrow> string \<Rightarrow> bool" where
  "refs_kept orig s =
     (\<forall>name. list_all params_char name \<and> occurs_in (slot_ref name) s \<longrightarrow>
        occurs_in (slot_ref name) orig)"

section \<open>Predicates of the membership property\<close>

text \<open>
  A name stands in a string between word boundaries: no word character directly before it
  and none directly after it.
\<close>

definition delimited_in :: "string \<Rightarrow> string \<Rightarrow> bool" where
  "delimited_in k s =
     (\<exists>u v. s = u @ k @ v \<and> (u = [] \<or> \<not> is_word_char (last u))
            \<and> (v = [] \<or> \<not> is_word_char (hd v)))"

section \<open>Properties of the ShortJSON codec\<close>

lemma js_split_no_sep: "c \<notin> set s \<Longrightarrow> js_split c s = [s]"
  by (induction s) auto

lemma js_split_append: "c \<notin> set s \<Longrightarrow> js_split c (s @ c # t) = s # js_split c t"
  by (induction s) auto

lemma js_split_join:
  "xs \<noteq> [] \<Longrightarrow> \<forall>x\<in>set xs. c \<notin> set x \<Longrightarrow> js_split c (js_join [c] xs) = xs"
proof (induction xs)
  case Nil
  then show ?case by simp
next
  case (Cons x xs)
  then show ?case by (cases xs) (simp_all add: js_split_no_sep js_split_append)
qed

lemma js_split_encode_item:
  "c = CHR '':'' \<Longrightarrow> c \<notin> set k \<Longrightarrow> \<forall>p\<in>set flags. c \<notin> set p \<Longrightarrow>
   js_split c (encode_item k flags) = k # flags"
proof (induction flags arbitrary: k)
  case Nil
  then show ?case by (simp add: encode_item_def js_split_no_sep)
next
  case (Cons f fs)
  have "encode_item k (f # fs) = k @ c # encode_item f fs"
    using Cons.prems(1) by (simp add: encode_item_def)
  then show ?case using Cons by (simp add: js_split_append)
qed

lemma is_lower_not_digit: "is_lower c \<Longrightarrow> \<not> is_digit c"
  by (simp add: is_lower_def is_digit_def)

lemma is_alpha_not_digit: "is_alpha c \<Longrightarrow> \<not> is_digit c"
  by (auto simp: is_alpha_def is_lower_def is_upper_def is_digit_def)

lemma not_index_if_starts_nondigit: "s \<noteq> [] \<Longrightarrow> \<not> is_digit (hd s) \<Longrightarrow> \<not> is_array_index s"
  by (cases s) (auto simp: is_array_index_def)

lemma js_keys_plain:
  "\<forall>p\<in>set (map fst obj). \<not> is_array_index p \<Longrightarrow> js_keys obj = map fst obj"
proof -
  assume a: "\<forall>p\<in>set (map fst obj). \<not> is_array_index p"
  then have "filter is_array_index (map fst obj) = []" by (simp add: filter_empty_conv)
  moreover have "filter (\<lambda>p. \<not> is_array_index p) (map fst obj) = map fst obj"
    using a by (simp add: filter_id_conv)
  ultimately show ?thesis by (simp add: js_keys_def)
qed

lemma update_fresh: "p \<notin> fst ` set al \<Longrightarrow> AList.update p v al = al @ [(p, v)]"
  by (induction al) auto

lemma foldl_set_fresh:
  "distinct flags \<Longrightarrow> set flags \<inter> fst ` set acc = {} \<Longrightarrow> ''__proto__'' \<notin> set flags \<Longrightarrow>
   foldl (\<lambda>arrObj arrObjProp. js_set arrObj arrObjProp v) acc flags
     = acc @ map (\<lambda>p. (p, v)) flags"
proof (induction flags arbitrary: acc)
  case Nil
  then show ?case by simp
next
  case (Cons f fs)
  have "js_set acc f v = acc @ [(f, v)]"
    using Cons.prems by (auto simp: js_set_def update_fresh)
  moreover have "set fs \<inter> fst ` set (acc @ [(f, v)]) = {}"
    using Cons.prems by auto
  ultimately show ?case using Cons by simp
qed

lemma wf_frame_key:
  assumes "wf_frame obj"
  obtains k where "map_of obj ''key'' = Some (JString k)" "is_alpha_word k"
  using assms by (auto simp: wf_frame_def split: option.splits jsval.splits)

lemma wf_frame_flag:
  assumes "wf_frame obj" "p \<in> set (frame_flags obj)"
  shows "is_lower_word p \<and> map_of obj p = Some (JBool True)"
proof -
  from assms(2) obtain v where pv: "(p, v) \<in> set obj" and ne: "p \<noteq> ''key''"
    by (auto simp: frame_flags_def)
  from assms(1) pv ne have "is_lower_word p \<and> v = JBool True"
    by (auto simp: wf_frame_def list_all_iff)
  moreover from assms(1) pv have "map_of obj p = Some v"
    by (simp add: wf_frame_def)
  ultimately show ?thesis by simp
qed

lemma wf_frame_names_plain:
  assumes "wf_frame obj"
  shows "\<forall>p\<in>set (map fst obj). \<not> is_array_index p"
proof
  fix p assume p: "p \<in> set (map fst obj)"
  show "\<not> is_array_index p"
  proof (cases "p = ''key''")
    case True
    then show ?thesis by (simp add: is_array_index_def is_digit_def)
  next
    case False
    with p have "p \<in> set (frame_flags obj)" by (simp add: frame_flags_def)
    then have "is_lower_word p" using wf_frame_flag[OF assms] by blast
    then have "p \<noteq> []" "is_lower (hd p)"
      by (cases p; simp add: is_lower_word_def)+
    then show ?thesis
      using not_index_if_starts_nondigit is_lower_not_digit by blast
  qed
qed

lemma foldl_encode:
  "\<forall>p\<in>set names. p \<noteq> ''key'' \<longrightarrow> js_truthy (js_get obj p) \<Longrightarrow>
   foldl (\<lambda>arrItem arrObjProp.
              if arrObjProp = ''key'' then arrItem
              else if js_truthy (js_get obj arrObjProp)
                   then JString (js_to_string arrItem @ '':'' @ arrObjProp)
                   else arrItem) (JString acc) names
    = JString (encode_item acc (filter (\<lambda>p. p \<noteq> ''key'') names))"
  by (induction names arbitrary: acc) (auto simp: encode_item_def)

lemma arrObjToArr_item_wf:
  assumes "wf_frame obj"
  shows "arrObjToArr_item obj = JString (encode_item (frame_key obj) (frame_flags obj))"
proof -
  obtain k where k: "map_of obj ''key'' = Some (JString k)"
    using assms by (rule wf_frame_key)
  have truthy: "\<forall>p\<in>set (map fst obj). p \<noteq> ''key'' \<longrightarrow> js_truthy (js_get obj p)"
  proof (intro ballI impI)
    fix p assume "p \<in> set (map fst obj)" "p \<noteq> ''key''"
    then have "p \<in> set (frame_flags obj)" by (simp add: frame_flags_def)
    then show "js_truthy (js_get obj p)"
      using wf_frame_flag[OF assms] by (simp add: js_get_def)
  qed
  have "js_keys obj = map fst obj"
    using wf_frame_names_plain[OF assms] by (rule js_keys_plain)
  then show ?thesis
    using k foldl_encode[OF truthy, of k]
    by (simp add: arrObjToArr_item_def js_get_def frame_key_def frame_flags_def)
qed

lemma no_colon_alpha: "list_all is_alpha s \<Longrightarrow> CHR '':'' \<notin> set s \<and> CHR '';'' \<notin> set s"
  by (auto simp: list_all_iff is_alpha_def is_lower_def is_upper_def)

lemma no_colon_lower: "list_all is_lower s \<Longrightarrow> CHR '':'' \<notin> set s \<and> CHR '';'' \<notin> set s"
  by (auto simp: list_all_iff is_lower_def)

lemma arrToArrObj_item_encode:
  assumes "CHR '':'' \<notin> set k" "\<forall>p\<in>set flags. CHR '':'' \<notin> set p"
    "distinct flags" "''key'' \<notin> set flags" "''__proto__'' \<notin> set flags"
  shows "arrToArrObj_item (encode_item k flags)
         = (''key'', JString k) # map (\<lambda>p. (p, JBool True)) flags"
proof -
  have "js_split CHR '':'' (encode_item k flags) = k # flags"
    using assms(1,2) by (simp add: js_split_encode_item)
  moreover have "js_set [] ''key'' (JString k) = [(''key'', JString k)]"
    by (simp add: js_set_def)
  moreover have "foldl (\<lambda>arrObj arrObjProp. js_set arrObj arrObjProp (JBool True))
                   [(''key'', JString k)] flags
                 = [(''key'', JString k)] @ map (\<lambda>p. (p, JBool True)) flags"
    using assms(3,4,5) by (intro foldl_set_fresh) auto
  ultimately show ?thesis by (simp add: arrToArrObj_item_def)
qed

lemma wf_frame_encoded:
  assumes "wf_frame obj"
  shows "js_join_elem (arrObjToArr_item obj) = encode_item (frame_key obj) (frame_flags obj)"
    and "is_alpha_word (frame_key obj)"
    and "\<forall>p\<in>set (frame_flags obj). is_lower_word p"
    and "distinct (frame_flags obj)"
proof -
  show "js_join_elem (arrObjToArr_item obj) = encode_item (frame_key obj) (frame_flags obj)"
    by (simp add: arrObjToArr_item_wf[OF assms])
  obtain k where k: "map_of obj ''key'' = Some (JString k)" "is_alpha_word k"
    using assms by (rule wf_frame_key)
  then show "is_alpha_word (frame_key obj)" by (simp add: frame_key_def js_get_def)
  show "\<forall>p\<in>set (frame_flags obj). is_lower_word p"
    using wf_frame_flag[OF assms] by blast
  show "distinct (frame_flags obj)"
    using assms by (simp add: wf_frame_def frame_flags_def distinct_map_filter)
qed

lemma lower_word_not_reserved:
  "is_lower_word p \<Longrightarrow> p \<noteq> ''__proto__'' \<and> CHR '':'' \<notin> set p \<and> CHR '';'' \<notin> set p"
  by (auto simp: is_lower_word_def list_all_iff is_lower_def)

lemma decode_encode_item:
  assumes "wf_frame obj"
  shows "arrToArrObj_item (js_join_elem (arrObjToArr_item obj)) = canonical_frame obj"
proof -
  note e = wf_frame_encoded[OF assms]
  have "CHR '':'' \<notin> set (frame_key obj)"
    using e(2) no_colon_alpha by (simp add: is_alpha_word_def)
  moreover have "\<forall>p\<in>set (frame_flags obj). CHR '':'' \<notin> set p"
    using e(3) lower_word_not_reserved by blast
  moreover have "''key'' \<notin> set (frame_flags obj)" by (simp add: frame_flags_def)
  moreover have "''__proto__'' \<notin> set (frame_flags obj)"
    using e(3) lower_word_not_reserved by blast
  ultimately show ?thesis
    using e(1,4) by (simp add: arrToArrObj_item_encode canonical_frame_def)
qed

lemma canonical_frame_same:
  assumes "wf_frame obj"
  shows "map_of (canonical_frame obj) = map_of obj"
proof
  fix p
  obtain k where k: "map_of obj ''key'' = Some (JString k)"
    using assms by (rule wf_frame_key)
  show "map_of (canonical_frame obj) p = map_of obj p"
  proof (cases "p = ''key''")
    case True
    then show ?thesis using k by (simp add: canonical_frame_def frame_key_def js_get_def)
  next
    case False
    show ?thesis
    proof (cases "p \<in> set (frame_flags obj)")
      case True
      then have "map_of (map (\<lambda>p. (p, JBool True)) (frame_flags obj)) p = Some (JBool True)"
        by (simp add: map_of_map_restrict)
      then show ?thesis
        using False wf_frame_flag[OF assms True] by (simp add: canonical_frame_def)
    next
      case no: False
      then have "p \<notin> fst ` set obj" using False by (auto simp: frame_flags_def)
      then have "map_of obj p = None" by (simp add: map_of_eq_None_iff)
      moreover have "map_of (map (\<lambda>p. (p, JBool True)) (frame_flags obj)) p = None"
        using no by (simp add: map_of_map_restrict)
      ultimately show ?thesis using False by (simp add: canonical_frame_def)
    qed
  qed
qed

lemma canonical_frame_id:
  assumes "wf_frame obj" "fst (hd obj) = ''key''"
  shows "canonical_frame obj = obj"
proof -
  obtain k where k: "map_of obj ''key'' = Some (JString k)"
    using assms(1) by (rule wf_frame_key)
  then obtain x rest where obj: "obj = x # rest" by (cases obj) auto
  with assms(2) k have x: "x = (''key'', JString k)" by (cases x) auto
  have d: "''key'' \<notin> fst ` set rest"
    using assms(1) obj x by (auto simp: wf_frame_def)
  then have "\<forall>p\<in>set (map fst rest). p \<noteq> ''key''" by (metis image_set)
  then have "filter (\<lambda>p. p \<noteq> ''key'') (map fst rest) = map fst rest"
    by (simp only: filter_id_conv)
  then have ff: "frame_flags obj = map fst rest"
    using obj x by (simp add: frame_flags_def)
  have "\<forall>e\<in>set rest. snd e = JBool True"
    using assms(1) obj d by (force simp: wf_frame_def list_all_iff)
  then have "map (\<lambda>p. (p, JBool True)) (map fst rest) = rest"
    by (induction rest) auto
  then show ?thesis
    using obj x k ff by (simp add: canonical_frame_def frame_key_def js_get_def)
qed

lemma js_join_nonempty: "xs \<noteq> [] \<Longrightarrow> hd xs \<noteq> [] \<Longrightarrow> js_join sep xs \<noteq> []"
  by (induction sep xs rule: js_join.induct) auto

lemma sjnToArr_arrToSJN:
  assumes "\<forall>v\<in>set arr. js_join_elem v \<noteq> [] \<and> CHR '';'' \<notin> set (js_join_elem v)"
  shows "sjnToArr (Some (arrToSJN arr)) = map js_join_elem arr"
proof (cases "arr = []")
  case True
  then show ?thesis by (simp add: sjnToArr_def arrToSJN_def)
next
  case False
  then have "js_join '';'' (map js_join_elem arr) \<noteq> []"
    using assms by (intro js_join_nonempty) (auto simp: hd_map)
  moreover have "js_split CHR '';'' (js_join [CHR '';''] (map js_join_elem arr)) = map js_join_elem arr"
    using False assms by (intro js_split_join) auto
  ultimately show ?thesis by (simp add: sjnToArr_def arrToSJN_def)
qed

lemma encode_item_chars:
  "set (encode_item k flags) \<subseteq> set k \<union> {CHR '':''} \<union> \<Union> (set ` set flags)"
  by (auto simp: encode_item_def)

lemma wf_frame_item_ok:
  assumes "wf_frame obj"
  shows "js_join_elem (arrObjToArr_item obj) \<noteq> [] \<and> CHR '';'' \<notin> set (js_join_elem (arrObjToArr_item obj))"
proof -
  note e = wf_frame_encoded[OF assms]
  have "frame_key obj \<noteq> []" using e(2) by (simp add: is_alpha_word_def)
  then have "encode_item (frame_key obj) (frame_flags obj) \<noteq> []" by (simp add: encode_item_def)
  moreover have "CHR '';'' \<notin> set (frame_key obj)"
    using e(2) no_colon_alpha by (simp add: is_alpha_word_def)
  moreover have "\<forall>p\<in>set (frame_flags obj). CHR '';'' \<notin> set p"
    using e(3) lower_word_not_reserved by blast
  ultimately show ?thesis
    using e(1) encode_item_chars[of "frame_key obj" "frame_flags obj"] by auto
qed

lemma decode_encode_list:
  assumes "list_all wf_frame L"
  shows "arrToArrObj (sjnToArr (Some (arrToSJN (arrObjToArr L)))) = map canonical_frame L"
proof -
  have "\<forall>v\<in>set (arrObjToArr L). js_join_elem v \<noteq> [] \<and> CHR '';'' \<notin> set (js_join_elem v)"
    using assms wf_frame_item_ok by (auto simp: arrObjToArr_def list_all_iff)
  then have "sjnToArr (Some (arrToSJN (arrObjToArr L))) = map js_join_elem (arrObjToArr L)"
    by (rule sjnToArr_arrToSJN)
  then show ?thesis
    using assms decode_encode_item by (simp add: arrToArrObj_def arrObjToArr_def list_all_iff)
qed

text \<open>
  C1 (ShortJSON round trip). For every list \<open>L\<close> of frame objects whose keys match
  \<open>[A-Za-z]+\<close> and whose flags are named in \<open>[a-z]+\<close> and set to \<open>true\<close>, decoding the
  encoding of \<open>L\<close> gives \<open>L\<close> again: frame by frame the same properties with the same
  values, and the very same list when every frame lists \<open>key\<close> first. The empty list
  encodes to the empty string and the empty string decodes to the empty list.
\<close>

theorem shortjson_round_trip:
  assumes "list_all wf_frame L"
  shows "list_all2 (\<lambda>a b. map_of a = map_of b)
           (arrToArrObj (sjnToArr (Some (arrToSJN (arrObjToArr L))))) L
         \<and> (list_all (\<lambda>obj. fst (hd obj) = ''key'') L
              \<longrightarrow> arrToArrObj (sjnToArr (Some (arrToSJN (arrObjToArr L)))) = L)
         \<and> arrToSJN (arrObjToArr []) = []
         \<and> arrToArrObj (sjnToArr (Some [])) = []"
proof (intro conjI impI)
  have dec: "arrToArrObj (sjnToArr (Some (arrToSJN (arrObjToArr L)))) = map canonical_frame L"
    using assms by (rule decode_encode_list)
  show "list_all2 (\<lambda>a b. map_of a = map_of b)
          (arrToArrObj (sjnToArr (Some (arrToSJN (arrObjToArr L))))) L"
    unfolding dec using assms canonical_frame_same
    by (simp add: list_all2_conv_all_nth list_all_length)
  show "arrToArrObj (sjnToArr (Some (arrToSJN (arrObjToArr L)))) = L"
    if "list_all (\<lambda>obj. fst (hd obj) = ''key'') L"
    unfolding dec using assms that canonical_frame_id
    by (simp add: list_all_iff map_idI)
  show "arrToSJN (arrObjToArr []) = []" by (simp add: arrToSJN_def arrObjToArr_def)
  show "arrToArrObj (sjnToArr (Some [])) = []" by (simp add: arrToArrObj_def sjnToArr_def)
qed

theorem shortjson_round_trip_witness:
  "list_all wf_frame [[(''queried'', JBool True), (''key'', JString ''checkIn'')], [(''key'', JString ''b'')]]
   \<and> arrToSJN (arrObjToArr [[(''queried'', JBool True), (''key'', JString ''checkIn'')], [(''key'', JString ''b'')]])
       = ''checkIn:queried;b''
   \<and> arrToArrObj (sjnToArr (Some ''checkIn:queried;b''))
       = [[(''key'', JString ''checkIn''), (''queried'', JBool True)], [(''key'', JString ''b'')]]
   \<and> list_all2 (\<lambda>a b. map_of a = map_of b)
        (arrToArrObj (sjnToArr (Some (arrToSJN (arrObjToArr
           [[(''queried'', JBool True), (''key'', JString ''checkIn'')], [(''key'', JString ''b'')]])))))
        [[(''queried'', JBool True), (''key'', JString ''checkIn'')], [(''key'', JString ''b'')]]"
proof -
  let ?L = "[[(''queried'', JBool True), (''key'', JString ''checkIn'')], [(''key'', JString ''b'')]]"
  have wf: "list_all wf_frame ?L"
    by (simp add: wf_frame_def is_alpha_word_def is_lower_word_def is_alpha_def is_lower_def is_upper_def)
  have enc: "arrToSJN (arrObjToArr ?L) = ''checkIn:queried;b''"
    by code_simp
  have dec: "arrToArrObj (sjnToArr (Some ''checkIn:queried;b''))
       = [[(''key'', JString ''checkIn''), (''queried'', JBool True)], [(''key'', JString ''b'')]]"
    by code_simp
  show ?thesis using wf enc dec shortjson_round_trip[OF wf] by blast
qed

section \<open>Removing a goal from the encoded stack\<close>

lemma wb_word_word: "is_word_char p \<Longrightarrow> is_word_char c \<Longrightarrow> \<not> word_boundary (Some p) (c # t)"
  by (simp add: word_boundary_def)

lemma wb_word_end: "is_word_char p \<Longrightarrow> word_boundary (Some p) []"
  by (simp add: word_boundary_def)

lemma wb_word_nonword: "is_word_char p \<Longrightarrow> \<not> is_word_char c \<Longrightarrow> word_boundary (Some p) (c # t)"
  by (simp add: word_boundary_def)

lemma replace_goal_inside:
  "is_word_char p \<Longrightarrow> list_all is_word_char tok \<Longrightarrow>
   replace_goal k (Some p) (tok @ rest) = tok @ replace_goal k (last_char (Some p) tok) rest"
proof (induction tok arbitrary: p)
  case Nil
  then show ?case by (simp add: last_char_def)
next
  case (Cons c cs)
  then have "clearInSJN_at k (Some p) (c # cs @ rest) = None"
    by (simp add: clearInSJN_at_def wb_word_word)
  moreover have "replace_goal k (Some c) (cs @ rest) = cs @ replace_goal k (last_char (Some c) cs) rest"
    using Cons by simp
  ultimately show ?case by (simp add: last_char_def)
qed

lemma match_flags_word: 
  "is_word_char p \<Longrightarrow> is_word_char c \<Longrightarrow> match_flags (Some p) (c # t) = None"
proof -
  assume a: "is_word_char p" "is_word_char c"
  then have "c \<noteq> CHR '':''" by (auto simp: is_word_char_def is_alpha_def is_lower_def is_upper_def is_digit_def)
  then show ?thesis using a by (simp add: wb_word_word)
qed

lemma no_match_at_other_token:
  assumes "k \<noteq> []" "list_all is_word_char k" "tok \<noteq> []" "list_all is_word_char tok" "tok \<noteq> k"
    and "rest = [] \<or> \<not> is_word_char (hd rest)"
  shows "clearInSJN_at k prev (tok @ rest) = None"
proof (cases "take (length k) (tok @ rest) = k")
  case False
  then show ?thesis by (simp add: clearInSJN_at_def)
next
  case True
  have lt: "length k < length tok"
  proof (rule ccontr)
    assume "\<not> length k < length tok"
    then have le: "length tok \<le> length k" by simp
    with True have k: "k = tok @ take (length k - length tok) rest" by simp
    with assms(5) have "take (length k - length tok) rest \<noteq> []" by auto
    then have "rest \<noteq> []" "hd (take (length k - length tok) rest) = hd rest"
      by (cases rest; cases "length k - length tok"; simp)+
    moreover have "list_all is_word_char (take (length k - length tok) rest)"
      using assms(2) k by (metis list_all_append)
    ultimately show False
      using assms(6) \<open>take (length k - length tok) rest \<noteq> []\<close>
      by (cases "take (length k - length tok) rest") auto
  qed
  then have "drop (length k) (tok @ rest) = (tok ! length k) # drop (Suc (length k)) tok @ rest"
    by (simp add: Cons_nth_drop_Suc)
  moreover have "is_word_char (tok ! length k)"
    using lt assms(4) by (simp add: list_all_length)
  moreover have "is_word_char (last k)"
    using assms(1,2) by (simp add: list_all_iff)
  ultimately have "match_flags (last_char prev k) (drop (length k) (tok @ rest)) = None"
    using assms(1) by (simp add: last_char_def match_flags_word del: match_flags.simps)
  then show ?thesis by (simp add: clearInSJN_at_def)
qed

lemma replace_goal_token:
  assumes "k \<noteq> []" "list_all is_word_char k" "tok \<noteq> []" "list_all is_word_char tok" "tok \<noteq> k"
    and "rest = [] \<or> \<not> is_word_char (hd rest)"
  shows "replace_goal k prev (tok @ rest) = tok @ replace_goal k (Some (last tok)) rest"
proof -
  obtain c cs where tok: "tok = c # cs" using assms(3) by (cases tok) auto
  have "clearInSJN_at k prev (c # cs @ rest) = None"
    using no_match_at_other_token[OF assms, of prev] tok by simp
  then have "replace_goal k prev (tok @ rest) = c # replace_goal k (Some c) (cs @ rest)"
    using tok by simp
  also have "replace_goal k (Some c) (cs @ rest) = cs @ replace_goal k (last_char (Some c) cs) rest"
    using assms(4) tok by (intro replace_goal_inside) auto
  finally show ?thesis using tok by (simp add: last_char_def)
qed

lemma replace_goal_separator:
  assumes "k \<noteq> []" "is_word_char (hd k)" "\<not> is_word_char sep"
  shows "replace_goal k prev (sep # rest) = sep # replace_goal k (Some sep) rest"
proof -
  have "take (length k) (sep # rest) \<noteq> k"
    using assms by (cases k) auto
  then show ?thesis by (simp add: clearInSJN_at_def)
qed

lemma is_lower_word_char: "is_lower c \<Longrightarrow> is_word_char c"
  by (simp add: is_word_char_def is_alpha_def)

lemma is_alpha_word_char: "is_alpha c \<Longrightarrow> is_word_char c"
  by (simp add: is_word_char_def)

lemma semi_not_word: "\<not> is_word_char CHR '';''" "\<not> is_word_char CHR '':''"
  "\<not> is_lower CHR '';''" "\<not> is_lower CHR '':''"
  by (simp_all add: is_word_char_def is_alpha_def is_lower_def is_upper_def is_digit_def)

lemma takeWhile_run:
  "list_all P f \<Longrightarrow> sfx = [] \<or> \<not> P (hd sfx) \<Longrightarrow>
   takeWhile P (f @ sfx) = f \<and> dropWhile P (f @ sfx) = sfx"
  by (induction f) (cases sfx; auto)+

lemma match_flags_text:
  assumes "is_word_char p" "list_all is_lower_word flags" "rest = [] \<or> hd rest = CHR '';''"
  shows "match_flags (Some p) (concat (map (\<lambda>f. CHR '':'' # f) flags) @ rest)
         = Some (length (concat (map (\<lambda>f. CHR '':'' # f) flags)))"
  using assms
proof (induction flags arbitrary: p)
  case Nil
  show ?case
  proof (cases rest)
    case Nil
    then show ?thesis using Nil.prems by (simp add: wb_word_end)
  next
    case (Cons c t)
    then have "c = CHR '';''" using Nil.prems by simp
    then show ?thesis using Cons Nil.prems by (simp add: wb_word_nonword semi_not_word)
  qed
next
  case (Cons f fs)
  let ?sfx = "concat (map (\<lambda>f. CHR '':'' # f) fs) @ rest"
  have f: "f \<noteq> []" "list_all is_lower f" using Cons.prems(2) by (simp_all add: is_lower_word_def)
  have "?sfx = [] \<or> \<not> is_lower (hd ?sfx)"
    using Cons.prems(3) by (cases fs) (auto simp: semi_not_word)
  then have run: "takeWhile is_lower (f @ ?sfx) = f" "dropWhile is_lower (f @ ?sfx) = ?sfx"
    using takeWhile_run[OF f(2)] by blast+
  have "is_word_char (last f)"
    using f by (simp add: list_all_iff is_lower_word_char)
  then have "match_flags (Some (last f)) ?sfx = Some (length (concat (map (\<lambda>f. CHR '':'' # f) fs)))"
    using Cons.IH Cons.prems by simp
  then show ?case using run f by simp
qed

lemma match_goal_item:
  assumes "is_alpha_word k" "list_all is_lower_word flags" "rest = [] \<or> hd rest = CHR '';''"
    and "\<forall>c. prev = Some c \<longrightarrow> \<not> is_word_char c"
  shows "replace_goal k prev (encode_item k flags @ rest) = rest"
proof -
  let ?ft = "concat (map (\<lambda>f. CHR '':'' # f) flags)"
  obtain c cs where k: "k = c # cs" using assms(1) by (cases k) (auto simp: is_alpha_word_def)
  have w: "is_word_char c" "is_word_char (last k)"
    using assms(1) k by (auto simp: is_alpha_word_def list_all_iff is_alpha_word_char)
  have "word_boundary prev (k @ ?ft @ rest)"
    using assms(4) w(1) k by (cases prev) (auto simp: word_boundary_def)
  moreover have "match_flags (last_char prev k) (?ft @ rest) = Some (length ?ft)"
    using match_flags_text[OF w(2) assms(2,3)] k by (simp add: last_char_def)
  ultimately have "clearInSJN_at k prev (k @ ?ft @ rest) = Some (length k + length ?ft)"
    by (simp add: clearInSJN_at_def)
  then show ?thesis using k by (simp add: encode_item_def)
qed

lemma replace_goal_flags:
  assumes "is_alpha_word k" "is_alpha_word tok \<or> is_lower_word tok" "tok \<noteq> k"
    "list_all is_lower_word flags" "k \<notin> set flags"
    "rest = [] \<or> hd rest = CHR '';''"
  shows "replace_goal k prev (tok @ concat (map (\<lambda>f. CHR '':'' # f) flags) @ rest)
         = tok @ concat (map (\<lambda>f. CHR '':'' # f) flags)
           @ replace_goal k (Some (last (tok @ concat (map (\<lambda>f. CHR '':'' # f) flags)))) rest"
  using assms(2,3,4,5)
proof (induction flags arbitrary: tok prev)
  case Nil
  have k: "k \<noteq> []" "list_all is_word_char k"
    using assms(1) by (auto simp: is_alpha_word_def list_all_iff is_alpha_word_char)
  have t: "tok \<noteq> []" "list_all is_word_char tok"
    using Nil.prems(1) by (auto simp: is_alpha_word_def is_lower_word_def list_all_iff
        is_alpha_word_char is_lower_word_char)
  have "rest = [] \<or> \<not> is_word_char (hd rest)" using assms(6) by (auto simp: semi_not_word)
  from replace_goal_token[OF k t Nil.prems(2) this] show ?case by simp
next
  case (Cons f fs)
  let ?sfx = "concat (map (\<lambda>f. CHR '':'' # f) fs) @ rest"
  have k: "k \<noteq> []" "list_all is_word_char k" "is_word_char (hd k)"
    using assms(1) by (cases k; auto simp: is_alpha_word_def list_all_iff is_alpha_word_char)+
  have t: "tok \<noteq> []" "list_all is_word_char tok"
    using Cons.prems(1) by (auto simp: is_alpha_word_def is_lower_word_def list_all_iff
        is_alpha_word_char is_lower_word_char)
  have f: "f \<noteq> []" "is_lower_word f" "f \<noteq> k" using Cons.prems(3,4) by (auto simp: is_lower_word_def)
  have d: "CHR '':'' # f @ ?sfx = [] \<or> \<not> is_word_char (hd (CHR '':'' # f @ ?sfx))"
    by (simp add: semi_not_word)
  have "replace_goal k prev (tok @ CHR '':'' # f @ ?sfx)
        = tok @ replace_goal k (Some (last tok)) (CHR '':'' # f @ ?sfx)"
    using replace_goal_token[OF k(1,2) t Cons.prems(2) d] by simp
  also have "replace_goal k (Some (last tok)) (CHR '':'' # f @ ?sfx)
        = CHR '':'' # replace_goal k (Some CHR '':'') (f @ ?sfx)"
    using replace_goal_separator[OF k(1,3)] by (simp add: semi_not_word)
  also have "replace_goal k (Some CHR '':'') (f @ ?sfx)
        = f @ concat (map (\<lambda>f. CHR '':'' # f) fs)
           @ replace_goal k (Some (last (f @ concat (map (\<lambda>f. CHR '':'' # f) fs)))) rest"
    using Cons.IH[of f "Some CHR '':''"] f Cons.prems by simp
  finally show ?case using f by simp
qed

lemma replace_goal_item:
  assumes "is_alpha_word k" "is_alpha_word key" "key \<noteq> k"
    "list_all is_lower_word flags" "k \<notin> set flags"
    "rest = [] \<or> hd rest = CHR '';''"
  shows "replace_goal k prev (encode_item key flags @ rest)
         = encode_item key flags @ replace_goal k (Some (last (encode_item key flags))) rest"
  using replace_goal_flags[OF assms(1) _ assms(3,4,5,6), of prev] assms(2)
  by (simp add: encode_item_def)

lemma replace_goal_prefix:
  assumes "is_alpha_word k" "list_all is_lower_word flags" "rest = [] \<or> hd rest = CHR '';''"
    and "\<forall>(key, fl)\<in>set pre. is_alpha_word key \<and> key \<noteq> k \<and> list_all is_lower_word fl \<and> k \<notin> set fl"
    and "\<forall>c. prev = Some c \<longrightarrow> \<not> is_word_char c"
  shows "replace_goal k prev
           (concat (map (\<lambda>(key, fl). encode_item key fl @ '';'') pre) @ encode_item k flags @ rest)
         = concat (map (\<lambda>(key, fl). encode_item key fl @ '';'') pre) @ rest"
  using assms(4,5)
proof (induction pre arbitrary: prev)
  case Nil
  then show ?case using match_goal_item[OF assms(1,2,3)] by simp
next
  case (Cons it pre)
  obtain key fl where it: "it = (key, fl)" by (cases it)
  let ?tail = "concat (map (\<lambda>(key, fl). encode_item key fl @ '';'') pre) @ encode_item k flags @ rest"
  have i: "is_alpha_word key" "key \<noteq> k" "list_all is_lower_word fl" "k \<notin> set fl"
    using Cons.prems(1) it by auto
  have kk: "k \<noteq> []" "is_word_char (hd k)"
    using assms(1) by (cases k; auto simp: is_alpha_word_def is_alpha_word_char)+
  have "replace_goal k prev (encode_item key fl @ CHR '';'' # ?tail)
        = encode_item key fl @ replace_goal k (Some (last (encode_item key fl))) (CHR '';'' # ?tail)"
    using replace_goal_item[OF assms(1) i, of "CHR '';'' # ?tail" prev] by simp
  also have "replace_goal k (Some (last (encode_item key fl))) (CHR '';'' # ?tail)
        = CHR '';'' # replace_goal k (Some CHR '';'') ?tail"
    using replace_goal_separator[OF kk] by (simp add: semi_not_word)
  also have "replace_goal k (Some CHR '';'') ?tail
        = concat (map (\<lambda>(key, fl). encode_item key fl @ '';'') pre) @ rest"
    using Cons.IH[of "Some CHR '';''"] Cons.prems(1) by (simp add: semi_not_word)
  finally show ?case using it by simp
qed

lemma js_join_append:
  "xs \<noteq> [] \<Longrightarrow> ys \<noteq> [] \<Longrightarrow> js_join sep (xs @ ys) = js_join sep xs @ sep @ js_join sep ys"
proof (induction xs)
  case Nil
  then show ?case by simp
next
  case (Cons x xs)
  then show ?case by (cases xs; cases ys) simp_all
qed

lemma concat_semi_pre: "pre \<noteq> [] \<Longrightarrow> concat (map (\<lambda>i. i @ '';'') pre) = js_join '';'' pre @ '';''"
proof (induction pre)
  case Nil
  then show ?case by simp
next
  case (Cons x xs)
  then show ?case by (cases xs) simp_all
qed

lemma concat_semi_suf: "suf \<noteq> [] \<Longrightarrow> concat (map (\<lambda>i. CHR '';'' # i) suf) = CHR '';'' # js_join '';'' suf"
proof (induction suf)
  case Nil
  then show ?case by simp
next
  case (Cons x xs)
  then show ?case by (cases xs) simp_all
qed

lemma replace_semis_skip: "CHR '';'' \<notin> set x \<Longrightarrow> replace_semis (x @ r) = x @ replace_semis r"
proof (induction x)
  case Nil
  then show ?case by simp
next
  case (Cons a x)
  then show ?case by (cases "x @ r") auto
qed

lemma replace_semis_join:
  assumes "xs \<noteq> []" "\<forall>x\<in>set xs. x \<noteq> [] \<and> CHR '';'' \<notin> set x"
  shows "replace_semis (js_join '';'' xs @ r) = js_join '';'' xs @ replace_semis r"
  using assms
proof (induction xs)
  case Nil
  then show ?case by simp
next
  case (Cons x xs)
  show ?case
  proof (cases xs)
    case Nil
    then show ?thesis using Cons.prems by (simp add: replace_semis_skip)
  next
    case (Cons y ys)
    obtain c cs where y: "y = c # cs" "c \<noteq> CHR '';''" using Cons.prems Cons by (cases y) auto
    have j: "js_join '';'' xs @ r = c # tl (js_join '';'' xs @ r)"
      using Cons y by (cases ys) simp_all
    have "replace_semis (CHR '';'' # js_join '';'' xs @ r) = CHR '';'' # replace_semis (js_join '';'' xs @ r)"
      using y(2) by (subst j, subst (2) j) simp
    then show ?thesis
      using Cons Cons.prems Cons.IH by (simp add: replace_semis_skip)
  qed
qed

lemma js_join_ends:
  assumes "xs \<noteq> []" "\<forall>x\<in>set xs. x \<noteq> [] \<and> CHR '';'' \<notin> set x"
  shows "js_join '';'' xs \<noteq> [] \<and> hd (js_join '';'' xs) \<noteq> CHR '';'' \<and> last (js_join '';'' xs) \<noteq> CHR '';''"
  using assms
proof (induction xs)
  case Nil
  then show ?case by simp
next
  case (Cons x xs)
  have x0: "x \<noteq> []" "CHR '';'' \<notin> set x" using Cons.prems(2) by auto
  have "hd x \<noteq> CHR '';''" using x0 by (metis hd_in_set)
  moreover have "last x \<noteq> CHR '';''" using x0 by (metis last_in_set)
  ultimately have x: "x \<noteq> []" "hd x \<noteq> CHR '';''" "last x \<noteq> CHR '';''"
    using x0 by simp_all
  show ?case
  proof (cases xs)
    case Nil
    then show ?thesis using x by simp
  next
    case (Cons y ys)
    then show ?thesis using x Cons.IH Cons.prems by (simp add: hd_append)
  qed
qed

lemma cleanup_join:
  assumes "\<forall>x\<in>set (pre @ suf). x \<noteq> [] \<and> CHR '';'' \<notin> set x"
  shows "strip_first_semi (strip_last_semi (replace_semis
           (concat (map (\<lambda>i. i @ '';'') pre) @ concat (map (\<lambda>i. CHR '';'' # i) suf))))
         = js_join '';'' (pre @ suf)"
proof -
  have okp: "\<forall>x\<in>set pre. x \<noteq> [] \<and> CHR '';'' \<notin> set x"
    and oks: "\<forall>x\<in>set suf. x \<noteq> [] \<and> CHR '';'' \<notin> set x" using assms by auto
  consider (a) "pre = []" "suf = []" | (b) "pre = []" "suf \<noteq> []"
    | (c) "pre \<noteq> []" "suf = []" | (d) "pre \<noteq> []" "suf \<noteq> []" by blast
  then show ?thesis
  proof cases
    case a
    then show ?thesis by (simp add: strip_first_semi_def strip_last_semi_def)
  next
    case b
    note e = js_join_ends[OF b(2) oks]
    obtain c cs where j: "js_join '';'' suf = c # cs" "c \<noteq> CHR '';''" using e by (cases "js_join '';'' suf") auto
    have "replace_semis (CHR '';'' # js_join '';'' suf) = CHR '';'' # js_join '';'' suf"
      using replace_semis_join[OF b(2) oks, of "[]"] j by simp
    then show ?thesis using b e by (simp add: concat_semi_suf strip_first_semi_def strip_last_semi_def)
  next
    case c
    note e = js_join_ends[OF c(1) okp]
    have "replace_semis (js_join '';'' pre @ '';'') = js_join '';'' pre @ '';''"
      using replace_semis_join[OF c(1) okp, of "'';''"] by simp
    then show ?thesis using c e
      by (simp add: concat_semi_pre strip_first_semi_def strip_last_semi_def)
  next
    case d
    note ep = js_join_ends[OF d(1) okp] and es = js_join_ends[OF d(2) oks]
    have "replace_semis (js_join '';'' pre @ CHR '';'' # CHR '';'' # js_join '';'' suf)
          = js_join '';'' pre @ CHR '';'' # js_join '';'' suf"
      using replace_semis_join[OF d(1) okp, of "CHR '';'' # CHR '';'' # js_join '';'' suf"] by simp
    then show ?thesis using d ep es
      by (simp add: concat_semi_pre concat_semi_suf js_join_append strip_first_semi_def
          strip_last_semi_def hd_append)
  qed
qed

lemma js_join_cons: "js_join '';'' (x # ys) = x @ concat (map (\<lambda>i. CHR '';'' # i) ys)"
proof (induction ys arbitrary: x)
  case Nil
  then show ?case by simp
next
  case (Cons y ys)
  then show ?case by simp
qed

lemma js_join_mid:
  "js_join '';'' (xs @ x # ys)
   = concat (map (\<lambda>i. i @ '';'') xs) @ x @ concat (map (\<lambda>i. CHR '';'' # i) ys)"
proof (induction xs)
  case Nil
  then show ?case by (simp add: js_join_cons)
next
  case (Cons a xs)
  then show ?case by (cases xs) simp_all
qed

lemma encode_item_ok:
  assumes "is_alpha_word key" "list_all is_lower_word fl"
  shows "encode_item key fl \<noteq> [] \<and> CHR '';'' \<notin> set (encode_item key fl)"
proof -
  have "key \<noteq> []" "CHR '';'' \<notin> set key"
    using assms(1) no_colon_alpha by (simp_all add: is_alpha_word_def)
  moreover have "\<forall>p\<in>set fl. CHR '';'' \<notin> set p"
    using assms(2) lower_word_not_reserved by (auto simp: list_all_iff)
  ultimately show ?thesis
    using encode_item_chars[of key fl] by (auto simp: encode_item_def)
qed

lemma clearInSJN_leftmost:
  fixes items :: "(string \<times> string list) list"
  assumes "\<forall>(key, fl)\<in>set items. is_alpha_word key \<and> list_all is_lower_word fl"
    and "i < length items" "fst (items ! i) = k"
    and "\<forall>j<i. fst (items ! j) \<noteq> k \<and> k \<notin> set (snd (items ! j))"
  shows "clearInSJN (Some (js_join '';'' (map (\<lambda>(key, fl). encode_item key fl) items))) k
         = js_join '';'' (map (\<lambda>(key, fl). encode_item key fl) (take i items @ drop (Suc i) items))"
proof -
  let ?enc = "\<lambda>(key, fl). encode_item key fl"
  let ?pre = "take i items" and ?suf = "drop (Suc i) items"
  obtain flags where it: "items ! i = (k, flags)" using assms(3) by (cases "items ! i") auto
  have items: "items = ?pre @ (k, flags) # ?suf"
    using assms(2) it by (metis id_take_nth_drop)
  have "(k, flags) \<in> set items" using assms(2) it by (metis nth_mem)
  then have kf: "is_alpha_word k" "list_all is_lower_word flags" using assms(1) by auto
  have pre: "\<forall>(key, fl)\<in>set ?pre. is_alpha_word key \<and> key \<noteq> k \<and> list_all is_lower_word fl \<and> k \<notin> set fl"
  proof (clarify, intro conjI)
    fix key fl assume m: "(key, fl) \<in> set ?pre"
    then obtain j where j: "j < i" "j < length items" "items ! j = (key, fl)"
      using assms(2) by (auto simp: in_set_conv_nth)
    then have "(key, fl) \<in> set items" by (metis nth_mem)
    then show "is_alpha_word key" "list_all is_lower_word fl" using assms(1) by auto
    show "key \<noteq> k" "k \<notin> set fl" using assms(4) j by auto
  qed
  have ok: "\<forall>x\<in>set (map ?enc ?pre @ map ?enc ?suf). x \<noteq> [] \<and> CHR '';'' \<notin> set x"
  proof
    fix x assume "x \<in> set (map ?enc ?pre @ map ?enc ?suf)"
    then obtain key fl where "(key, fl) \<in> set items" "x = encode_item key fl"
      by (auto dest: in_set_takeD in_set_dropD)
    then show "x \<noteq> [] \<and> CHR '';'' \<notin> set x" using assms(1) encode_item_ok by auto
  qed
  let ?A = "concat (map (\<lambda>i. i @ '';'') (map ?enc ?pre))"
  let ?B = "concat (map (\<lambda>i. CHR '';'' # i) (map ?enc ?suf))"
  have A: "?A = concat (map (\<lambda>(key, fl). encode_item key fl @ '';'') ?pre)"
    by (simp add: comp_def case_prod_unfold)
  have B: "?B = [] \<or> hd ?B = CHR '';''" by (cases ?suf) auto
  have "js_join '';'' (map ?enc items) = ?A @ encode_item k flags @ ?B"
    by (subst items) (simp add: js_join_mid del: append_take_drop_id)
  moreover have "replace_goal k None (?A @ encode_item k flags @ ?B) = ?A @ ?B"
    unfolding A using replace_goal_prefix[OF kf B pre, of None] by simp
  ultimately have "clearInSJN (Some (js_join '';'' (map ?enc items))) k
        = strip_first_semi (strip_last_semi (replace_semis (?A @ ?B)))"
    by (simp add: clearInSJN_def)
  also have "\<dots> = js_join '';'' (map ?enc ?pre @ map ?enc ?suf)"
    using cleanup_join[OF ok] .
  finally show ?thesis by simp
qed

lemma arrToSJN_wf:
  assumes "list_all wf_frame L"
  shows "arrToSJN (arrObjToArr L)
         = js_join '';'' (map (\<lambda>(key, fl). encode_item key fl) (map (\<lambda>obj. (frame_key obj, frame_flags obj)) L))"
proof -
  have "map js_join_elem (arrObjToArr L) = map (\<lambda>obj. encode_item (frame_key obj) (frame_flags obj)) L"
    using assms wf_frame_encoded(1) by (simp add: arrObjToArr_def list_all_iff)
  then show ?thesis by (simp add: arrToSJN_def comp_def)
qed

lemma clearInSJN_frames:
  assumes "list_all wf_frame L" "p < length L" "frame_key (L ! p) = k"
    and "\<forall>j<p. frame_key (L ! j) \<noteq> k \<and> k \<notin> set (frame_flags (L ! j))"
  shows "clearInSJN (Some (arrToSJN (arrObjToArr L))) k
         = arrToSJN (arrObjToArr (take p L @ drop (Suc p) L))"
proof -
  let ?items = "map (\<lambda>obj. (frame_key obj, frame_flags obj)) L"
  have wf': "list_all wf_frame (take p L @ drop (Suc p) L)"
    using assms(1) by (auto simp: list_all_iff dest: in_set_takeD in_set_dropD)
  have "\<forall>(key, fl)\<in>set ?items. is_alpha_word key \<and> list_all is_lower_word fl"
    using assms(1) wf_frame_encoded(2,3) by (auto simp: list_all_iff)
  moreover have "p < length ?items" "fst (?items ! p) = k" using assms(2,3) by simp_all
  moreover have "\<forall>j<p. fst (?items ! j) \<noteq> k \<and> k \<notin> set (snd (?items ! j))"
    using assms(2,4) by simp
  ultimately have "clearInSJN (Some (js_join '';'' (map (\<lambda>(key, fl). encode_item key fl) ?items))) k
      = js_join '';'' (map (\<lambda>(key, fl). encode_item key fl) (take p ?items @ drop (Suc p) ?items))"
    by (rule clearInSJN_leftmost)
  then show ?thesis
    by (simp add: arrToSJN_wf[OF assms(1)] arrToSJN_wf[OF wf'] take_map drop_map)
qed

lemma topInArr_nth:
  "p < length L \<Longrightarrow> topInArr L (int (length L) - 1 - int p) = Some (L ! p)"
  by (cases L) (auto simp: topInArr_def)

lemma topInArr_index:
  "topInArr L d = Some f \<Longrightarrow> 0 \<le> d \<and> d < int (length L) \<and> f = L ! nat (int (length L) - d - 1)"
  by (auto simp: topInArr_def split: if_splits)

text \<open>
  C5 (ShortJSON removal), as amended. For an encoded list of frames with keys in
  \<open>[A-Za-z]+\<close> and flags in \<open>[a-z]+\<close>, let \<open>p\<close> be the first position whose key is \<open>k\<close>, and
  let no earlier frame carry a flag named \<open>k\<close>. Then removing \<open>k\<close> deletes exactly the frame at
  \<open>p\<close> together with its flags; all other frames remain in their order with their flags. The
  removed frame is the oldest occurrence of the key, the one deepest in the stack, not the
  one at the top.
\<close>

theorem clearInSJN_removes_first:
  assumes "list_all wf_frame L" "p < length L" "frame_key (L ! p) = k"
    and "\<forall>j<p. frame_key (L ! j) \<noteq> k \<and> k \<notin> set (frame_flags (L ! j))"
  shows "clearInSJN (Some (arrToSJN (arrObjToArr L))) k
           = arrToSJN (arrObjToArr (take p L @ drop (Suc p) L))
         \<and> arrToArrObj (sjnToArr (Some (clearInSJN (Some (arrToSJN (arrObjToArr L))) k)))
           = map canonical_frame (take p L @ drop (Suc p) L)
         \<and> topInArr L (int (length L) - 1 - int p) = Some (L ! p)
         \<and> (\<forall>d f. topInArr L d = Some f \<and> frame_key f = k \<longrightarrow> d \<le> int (length L) - 1 - int p)"
proof (intro conjI allI impI)
  have wf': "list_all wf_frame (take p L @ drop (Suc p) L)"
    using assms(1) by (auto simp: list_all_iff dest: in_set_takeD in_set_dropD)
  show c: "clearInSJN (Some (arrToSJN (arrObjToArr L))) k
           = arrToSJN (arrObjToArr (take p L @ drop (Suc p) L))"
    using assms by (rule clearInSJN_frames)
  show "arrToArrObj (sjnToArr (Some (clearInSJN (Some (arrToSJN (arrObjToArr L))) k)))
           = map canonical_frame (take p L @ drop (Suc p) L)"
    unfolding c using wf' by (rule decode_encode_list)
  show "topInArr L (int (length L) - 1 - int p) = Some (L ! p)"
    using assms(2) by (rule topInArr_nth)
  fix d f assume "topInArr L d = Some f \<and> frame_key f = k"
  then have d: "0 \<le> d" "d < int (length L)" "frame_key (L ! nat (int (length L) - d - 1)) = k"
    using topInArr_index[of L d f] by auto
  then have "\<not> nat (int (length L) - d - 1) < p" using assms(4) by blast
  then show "d \<le> int (length L) - 1 - int p" using d by linarith
qed

theorem clearInSJN_removes_first_witness:
  "list_all wf_frame [[(''key'', JString ''a'')], [(''key'', JString ''k''), (''queried'', JBool True)],
      [(''key'', JString ''b'')], [(''key'', JString ''k'')]]
   \<and> arrToSJN (arrObjToArr [[(''key'', JString ''a'')], [(''key'', JString ''k''), (''queried'', JBool True)],
      [(''key'', JString ''b'')], [(''key'', JString ''k'')]]) = ''a;k:queried;b;k''
   \<and> clearInSJN (Some ''a;k:queried;b;k'') ''k'' = ''a;b;k''"
proof -
  let ?L = "[[(''key'', JString ''a'')], [(''key'', JString ''k''), (''queried'', JBool True)],
      [(''key'', JString ''b'')], [(''key'', JString ''k'')]]"
  have wf: "list_all wf_frame ?L"
    by (simp add: wf_frame_def is_alpha_word_def is_lower_word_def is_alpha_def is_lower_def is_upper_def)
  have p: "(1::nat) < length ?L" by simp
  have k: "frame_key (?L ! 1) = ''k''" by (simp add: frame_key_def js_get_def)
  have e: "\<forall>j<(1::nat). frame_key (?L ! j) \<noteq> ''k'' \<and> ''k'' \<notin> set (frame_flags (?L ! j))"
    by (simp add: frame_key_def js_get_def frame_flags_def)
  have enc: "arrToSJN (arrObjToArr ?L) = ''a;k:queried;b;k''" by code_simp
  have enc': "arrToSJN (arrObjToArr (take 1 ?L @ drop (Suc 1) ?L)) = ''a;b;k''" by code_simp
  show ?thesis
    using clearInSJN_removes_first[OF wf p k e] wf enc enc' by simp
qed

theorem clearInSJN_counterexample:
  "arrToArrObj (sjnToArr (Some (clearInSJN (Some ''k:queried;b;k'') ''k'')))
     = [[(''key'', JString ''b'')], [(''key'', JString ''k'')]]
   \<and> topInArr (arrToArrObj (sjnToArr (Some ''k:queried;b;k''))) 0 = Some [(''key'', JString ''k'')]
   \<and> topInArr (arrToArrObj (sjnToArr (Some ''k:queried;b;k''))) 2
       = Some [(''key'', JString ''k''), (''queried'', JBool True)]
   \<and> arrToArrObj (sjnToArr (Some (clearInSJN (Some ''a:queried;queried'') ''queried'')))
     = [[(''key'', JString ''a''), ([], JBool True)], [(''key'', JString ''queried'')]]"
  by code_simp

section \<open>Membership in the encoded stack\<close>

lemma inSJN_at_word:
  assumes "k \<noteq> []" "list_all is_word_char k"
  shows "inSJN_at k prev rest
         \<longleftrightarrow> (\<exists>v. rest = k @ v \<and> (case prev of None \<Rightarrow> True | Some c \<Rightarrow> \<not> is_word_char c)
                  \<and> (v = [] \<or> \<not> is_word_char (hd v)))"
proof -
  have hk: "is_word_char (hd k)" and lk: "is_word_char (last k)"
    using assms by (simp_all add: list_all_iff)
  have pre: "take (length k) rest = k \<longleftrightarrow> (\<exists>v. rest = k @ v)"
    by (metis append_eq_conv_conj append_take_drop_id)
  show ?thesis
  proof
    assume a: "inSJN_at k prev rest"
    then obtain v where v: "rest = k @ v" using pre by (auto simp: inSJN_at_def)
    from a v assms(1) hk have "case prev of None \<Rightarrow> True | Some c \<Rightarrow> \<not> is_word_char c"
      by (cases k; cases prev) (auto simp: inSJN_at_def word_boundary_def)
    moreover from a v assms(1) lk have "v = [] \<or> \<not> is_word_char (hd v)"
      by (cases v) (auto simp: inSJN_at_def word_boundary_def last_char_def)
    ultimately show "\<exists>v. rest = k @ v \<and> (case prev of None \<Rightarrow> True | Some c \<Rightarrow> \<not> is_word_char c)
                  \<and> (v = [] \<or> \<not> is_word_char (hd v))" using v by blast
  next
    assume "\<exists>v. rest = k @ v \<and> (case prev of None \<Rightarrow> True | Some c \<Rightarrow> \<not> is_word_char c)
                  \<and> (v = [] \<or> \<not> is_word_char (hd v))"
    then obtain v where v: "rest = k @ v" and p: "case prev of None \<Rightarrow> True | Some c \<Rightarrow> \<not> is_word_char c"
      and e: "v = [] \<or> \<not> is_word_char (hd v)" by blast
    have "word_boundary prev rest" using v p assms(1) hk
      by (cases k; cases prev) (auto simp: word_boundary_def)
    moreover have "word_boundary (last_char prev k) (drop (length k) rest)"
      using v e assms(1) lk by (cases v) (auto simp: word_boundary_def last_char_def)
    ultimately show "inSJN_at k prev rest" using v by (simp add: inSJN_at_def)
  qed
qed

lemma inSJN_scan_word:
  assumes "k \<noteq> []" "list_all is_word_char k"
  shows "inSJN_scan k prev s
         \<longleftrightarrow> (\<exists>u v. s = u @ k @ v
                  \<and> (if u = [] then (case prev of None \<Rightarrow> True | Some c \<Rightarrow> \<not> is_word_char c)
                      else \<not> is_word_char (last u))
                  \<and> (v = [] \<or> \<not> is_word_char (hd v)))"
proof (induction s arbitrary: prev)
  case Nil
  have "\<not> inSJN_at k prev []" using assms(1) by (simp add: inSJN_at_def)
  then show ?case using assms(1) by simp
next
  case (Cons c cs)
  let ?P = "\<lambda>prev u. (if u = [] then (case prev of None \<Rightarrow> True | Some c \<Rightarrow> \<not> is_word_char c)
                      else \<not> is_word_char (last u))"
  let ?E = "\<lambda>v. v = [] \<or> \<not> is_word_char (hd v)"
  have at: "inSJN_at k prev (c # cs) \<longleftrightarrow> (\<exists>v. c # cs = [] @ k @ v \<and> ?P prev [] \<and> ?E v)"
    using inSJN_at_word[OF assms, of prev "c # cs"] by simp
  have rec: "inSJN_scan k (Some c) cs \<longleftrightarrow> (\<exists>u v. cs = u @ k @ v \<and> ?P (Some c) u \<and> ?E v)"
    by (rule Cons.IH)
  have shift: "(\<exists>u v. cs = u @ k @ v \<and> ?P (Some c) u \<and> ?E v)
               \<longleftrightarrow> (\<exists>u v. c # cs = (c # u) @ k @ v \<and> ?P prev (c # u) \<and> ?E v)"
    by auto
  have split: "(\<exists>u v. c # cs = u @ k @ v \<and> ?P prev u \<and> ?E v)
               \<longleftrightarrow> (\<exists>v. c # cs = [] @ k @ v \<and> ?P prev [] \<and> ?E v)
                   \<or> (\<exists>u v. c # cs = (c # u) @ k @ v \<and> ?P prev (c # u) \<and> ?E v)"
  proof
    assume "\<exists>u v. c # cs = u @ k @ v \<and> ?P prev u \<and> ?E v"
    then obtain u v where uv: "c # cs = u @ k @ v" "?P prev u" "?E v" by blast
    show "(\<exists>v. c # cs = [] @ k @ v \<and> ?P prev [] \<and> ?E v)
          \<or> (\<exists>u v. c # cs = (c # u) @ k @ v \<and> ?P prev (c # u) \<and> ?E v)"
    proof (cases u)
      case Nil
      with uv show ?thesis by blast
    next
      case (Cons a u')
      with uv(1) have "a = c" by simp
      with uv Cons show ?thesis by blast
    qed
  next
    assume "(\<exists>v. c # cs = [] @ k @ v \<and> ?P prev [] \<and> ?E v)
          \<or> (\<exists>u v. c # cs = (c # u) @ k @ v \<and> ?P prev (c # u) \<and> ?E v)"
    then show "\<exists>u v. c # cs = u @ k @ v \<and> ?P prev u \<and> ?E v" by blast
  qed
  have "inSJN_scan k prev (c # cs) \<longleftrightarrow> inSJN_at k prev (c # cs) \<or> inSJN_scan k (Some c) cs" by simp
  then show ?case unfolding at rec shift split[symmetric] .
qed

lemma hasGoal_delimited:
  assumes "k \<noteq> []" "list_all is_word_char k"
  shows "hasGoal r k \<longleftrightarrow> delimited_in k (case convoGoalState r of None \<Rightarrow> [] | Some s \<Rightarrow> s)"
proof -
  define s where "s = (case convoGoalState r of None \<Rightarrow> [] | Some s \<Rightarrow> s)"
  have "hasGoal r k \<longleftrightarrow> inSJN_scan k None s"
    by (simp add: hasGoal_def inSJN_def getGoalsRaw_def s_def)
  also have "\<dots> \<longleftrightarrow> (\<exists>u v. s = u @ k @ v \<and> (if u = [] then True else \<not> is_word_char (last u))
                  \<and> (v = [] \<or> \<not> is_word_char (hd v)))"
    using inSJN_scan_word[OF assms, of None s] by simp
  also have "\<dots> \<longleftrightarrow> delimited_in k s"
    unfolding delimited_in_def by (intro ex_cong1) auto
  finally show ?thesis unfolding s_def .
qed


lemma inSJN_scan_inside:
  "is_word_char p \<Longrightarrow> list_all is_word_char tok \<Longrightarrow>
   inSJN_scan k (Some p) (tok @ rest) = inSJN_scan k (last_char (Some p) tok) rest"
proof (induction tok arbitrary: p)
  case Nil
  then show ?case by (simp add: last_char_def)
next
  case (Cons c t)
  then have c: "is_word_char c" and t: "list_all is_word_char t" by simp_all
  have "\<not> inSJN_at k (Some p) (c # t @ rest)"
    using wb_word_word[OF Cons.prems(1) c] by (simp add: inSJN_at_def)
  then have "inSJN_scan k (Some p) ((c # t) @ rest) = inSJN_scan k (Some c) (t @ rest)" by simp
  also have "\<dots> = inSJN_scan k (last_char (Some c) t) rest" by (rule Cons.IH[OF c t])
  also have "last_char (Some c) t = last_char (Some p) (c # t)" by (simp add: last_char_def)
  finally show ?case .
qed

lemma inSJN_scan_token:
  assumes k: "k \<noteq> []" "list_all is_word_char k"
    and tok: "tok \<noteq> []" "list_all is_word_char tok"
    and rest: "rest = [] \<or> \<not> is_word_char (hd rest)"
    and prev: "case prev of None \<Rightarrow> True | Some c \<Rightarrow> \<not> is_word_char c"
  shows "inSJN_scan k prev (tok @ rest) \<longleftrightarrow> k = tok \<or> inSJN_scan k (Some (last tok)) rest"
proof -
  obtain c t where ct: "tok = c # t" using tok(1) by (cases tok) auto
  have c: "is_word_char c" and t: "list_all is_word_char t" using tok(2) ct by simp_all
  have run: "takeWhile is_word_char (tok @ rest) = tok"
    using takeWhile_run[OF tok(2) rest] by simp
  have at: "inSJN_at k prev (tok @ rest) \<longleftrightarrow> k = tok"
  proof
    assume "inSJN_at k prev (tok @ rest)"
    then obtain v where v: "tok @ rest = k @ v" "v = [] \<or> \<not> is_word_char (hd v)"
      using inSJN_at_word[OF k, of prev "tok @ rest"] by blast
    have "takeWhile is_word_char (k @ v) = k" using takeWhile_run[OF k(2) v(2)] by simp
    then show "k = tok" using run v(1) by simp
  next
    assume "k = tok"
    then show "inSJN_at k prev (tok @ rest)"
      using inSJN_at_word[OF k, of prev "tok @ rest"] rest prev by blast
  qed
  have "inSJN_scan k prev (tok @ rest) \<longleftrightarrow> inSJN_at k prev (tok @ rest) \<or> inSJN_scan k (Some c) (t @ rest)"
    by (simp add: ct)
  also have "inSJN_scan k (Some c) (t @ rest) = inSJN_scan k (last_char (Some c) t) rest"
    by (rule inSJN_scan_inside[OF c t])
  also have "last_char (Some c) t = Some (last tok)" by (simp add: last_char_def ct)
  finally show ?thesis unfolding at .
qed

lemma inSJN_scan_separator:
  assumes "k \<noteq> []" "list_all is_word_char k" "\<not> is_word_char sep"
  shows "inSJN_scan k prev (sep # rest) = inSJN_scan k (Some sep) rest"
proof -
  have "\<not> inSJN_at k prev (sep # rest)"
  proof
    assume "inSJN_at k prev (sep # rest)"
    then obtain v where "sep # rest = k @ v" using inSJN_at_word[OF assms(1,2)] by blast
    then have "hd k = sep" using assms(1) by (cases k) auto
    then show False using assms by (cases k) auto
  qed
  then show ?thesis by simp
qed

lemma inSJN_scan_after:
  assumes "k \<noteq> []" "list_all is_word_char k" "rest = [] \<or> hd rest = CHR '';''"
  shows "inSJN_scan k prev rest = inSJN_scan k None rest"
proof (cases rest)
  case Nil
  then show ?thesis using assms(1) by (simp add: inSJN_at_def)
next
  case (Cons c cs)
  then have "c = CHR '';''" using assms(3) by simp
  then show ?thesis
    using Cons inSJN_scan_separator[OF assms(1,2) semi_not_word(1)] by simp
qed

lemma inSJN_scan_flags:
  assumes k: "k \<noteq> []" "list_all is_word_char k"
    and rest: "rest = [] \<or> hd rest = CHR '';''"
  shows "list_all is_lower_word flags \<Longrightarrow>
         inSJN_scan k prev (concat (map (\<lambda>f. CHR '':'' # f) flags) @ rest)
         \<longleftrightarrow> k \<in> set flags \<or> inSJN_scan k None rest"
proof (induction flags arbitrary: prev)
  case Nil
  then show ?case using inSJN_scan_after[OF k rest] by simp
next
  case (Cons f fs)
  let ?tail = "concat (map (\<lambda>f. CHR '':'' # f) fs) @ rest"
  have f: "f \<noteq> []" "list_all is_word_char f"
    using Cons.prems is_lower_word_char by (auto simp: is_lower_word_def list_all_iff)
  have fs: "list_all is_lower_word fs" using Cons.prems by simp
  have tl: "?tail = [] \<or> \<not> is_word_char (hd ?tail)"
    using rest semi_not_word by (cases fs) auto
  have "inSJN_scan k prev (concat (map (\<lambda>f. CHR '':'' # f) (f # fs)) @ rest)
        = inSJN_scan k (Some CHR '':'') (f @ ?tail)"
    using inSJN_scan_separator[OF k semi_not_word(2), of prev "f @ ?tail"] by simp
  also have "\<dots> \<longleftrightarrow> k = f \<or> inSJN_scan k (Some (last f)) ?tail"
    using inSJN_scan_token[OF k f tl, of "Some CHR '':''"] semi_not_word by simp
  also have "inSJN_scan k (Some (last f)) ?tail \<longleftrightarrow> k \<in> set fs \<or> inSJN_scan k None rest"
    by (rule Cons.IH[OF fs])
  finally show ?case by auto
qed

lemma inSJN_scan_item:
  assumes k: "k \<noteq> []" "list_all is_word_char k"
    and rest: "rest = [] \<or> hd rest = CHR '';''"
    and key: "is_alpha_word key" and flags: "list_all is_lower_word flags"
    and prev: "case prev of None \<Rightarrow> True | Some c \<Rightarrow> \<not> is_word_char c"
  shows "inSJN_scan k prev (encode_item key flags @ rest)
         \<longleftrightarrow> k = key \<or> k \<in> set flags \<or> inSJN_scan k None rest"
proof -
  let ?tail = "concat (map (\<lambda>f. CHR '':'' # f) flags) @ rest"
  have kw: "key \<noteq> []" "list_all is_word_char key"
    using key is_alpha_word_char by (auto simp: is_alpha_word_def list_all_iff)
  have tl: "?tail = [] \<or> \<not> is_word_char (hd ?tail)"
    using rest semi_not_word by (cases flags) auto
  have "inSJN_scan k prev (encode_item key flags @ rest) = inSJN_scan k prev (key @ ?tail)"
    by (simp add: encode_item_def)
  also have "\<dots> \<longleftrightarrow> k = key \<or> inSJN_scan k (Some (last key)) ?tail"
    by (rule inSJN_scan_token[OF k kw tl prev])
  also have "inSJN_scan k (Some (last key)) ?tail \<longleftrightarrow> k \<in> set flags \<or> inSJN_scan k None rest"
    by (rule inSJN_scan_flags[OF k rest flags])
  finally show ?thesis .
qed

lemma inSJN_scan_items:
  fixes items :: "(string \<times> string list) list"
  assumes k: "k \<noteq> []" "list_all is_word_char k"
  shows "\<forall>(key, fl)\<in>set items. is_alpha_word key \<and> list_all is_lower_word fl \<Longrightarrow>
         inSJN_scan k None (concat (map (\<lambda>i. CHR '';'' # i) (map (\<lambda>(key, fl). encode_item key fl) items)))
         \<longleftrightarrow> (\<exists>(key, fl)\<in>set items. k = key \<or> k \<in> set fl)"
proof (induction items)
  case Nil
  then show ?case using k(1) by (simp add: inSJN_at_def)
next
  case (Cons i items)
  obtain key fl where i: "i = (key, fl)" by (cases i)
  let ?rest = "concat (map (\<lambda>i. CHR '';'' # i) (map (\<lambda>(key, fl). encode_item key fl) items))"
  have wf: "is_alpha_word key" "list_all is_lower_word fl" using Cons.prems i by auto
  have rest: "?rest = [] \<or> hd ?rest = CHR '';''" by (cases items) auto
  have "inSJN_scan k None (concat (map (\<lambda>i. CHR '';'' # i) (map (\<lambda>(key, fl). encode_item key fl) (i # items))))
        = inSJN_scan k (Some CHR '';'') (encode_item key fl @ ?rest)"
    using inSJN_scan_separator[OF k semi_not_word(1), of None "encode_item key fl @ ?rest"]
    by (simp add: i)
  also have "\<dots> \<longleftrightarrow> k = key \<or> k \<in> set fl \<or> inSJN_scan k None ?rest"
    using inSJN_scan_item[OF k rest wf, of "Some CHR '';''"] semi_not_word by simp
  also have "inSJN_scan k None ?rest \<longleftrightarrow> (\<exists>(key, fl)\<in>set items. k = key \<or> k \<in> set fl)"
    using Cons.IH Cons.prems by simp
  finally show ?case by (auto simp: i)
qed

lemma inSJN_frames:
  assumes k: "k \<noteq> []" "list_all is_word_char k" and wf: "list_all wf_frame L"
  shows "inSJN (Some (arrToSJN (arrObjToArr L))) k
         \<longleftrightarrow> (\<exists>f\<in>set L. frame_key f = k \<or> k \<in> set (frame_flags f))"
proof (cases L)
  case Nil
  then show ?thesis using k(1)
    by (simp add: inSJN_def arrToSJN_def arrObjToArr_def inSJN_at_def)
next
  case (Cons x xs)
  let ?enc = "\<lambda>(key, fl). encode_item key fl"
  let ?items = "map (\<lambda>obj. (frame_key obj, frame_flags obj)) xs"
  let ?rest = "concat (map (\<lambda>i. CHR '';'' # i) (map ?enc ?items))"
  have wfx: "is_alpha_word (frame_key x)" "list_all is_lower_word (frame_flags x)"
    using wf Cons wf_frame_encoded(2,3)[of x] by (simp_all add: list_all_iff)
  have wfi: "\<forall>(key, fl)\<in>set ?items. is_alpha_word key \<and> list_all is_lower_word fl"
    using wf Cons wf_frame_encoded(2,3) by (auto simp: list_all_iff)
  have rest: "?rest = [] \<or> hd ?rest = CHR '';''" by (cases xs) auto
  have "arrToSJN (arrObjToArr L) = encode_item (frame_key x) (frame_flags x) @ ?rest"
    using arrToSJN_wf[OF wf] by (simp add: Cons js_join_cons)
  then have "inSJN (Some (arrToSJN (arrObjToArr L))) k
        = inSJN_scan k None (encode_item (frame_key x) (frame_flags x) @ ?rest)"
    by (simp add: inSJN_def)
  also have "\<dots> \<longleftrightarrow> k = frame_key x \<or> k \<in> set (frame_flags x) \<or> inSJN_scan k None ?rest"
    using inSJN_scan_item[OF k rest wfx, of None] by simp
  also have "inSJN_scan k None ?rest \<longleftrightarrow> (\<exists>(key, fl)\<in>set ?items. k = key \<or> k \<in> set fl)"
    by (rule inSJN_scan_items[OF k wfi])
  finally show ?thesis by (auto simp: Cons)
qed

text \<open>
  C10 (\<open>hasGoal\<close>). Membership is a search on the encoded string for the name between word
  boundaries, not a comparison of frame keys. For a name of letters, digits and underscores
  (read literally by the pattern), \<open>hasGoal\<close> holds exactly when the name stands in the string
  with no word character directly before or after it. On the encoding of frames with keys in
  \<open>[A-Za-z]+\<close> and flags in \<open>[a-z]+\<close> it therefore holds exactly when the name is the key or a
  flag of some frame: a prefix of a key is not found, a flag name is. On the stack
  \<open>checkIn:queried\<close> the name \<open>queried\<close> is found although the only frame has the key
  \<open>checkIn\<close>.
\<close>

theorem hasGoal_word_boundary:
  assumes "k \<noteq> []" and "list_all is_word_char k"
  shows "(hasGoal r k \<longleftrightarrow> delimited_in k (case convoGoalState r of None \<Rightarrow> [] | Some s \<Rightarrow> s))
         \<and> (list_all wf_frame L \<longrightarrow>
              (hasGoal (setGoalStates r L) k
               \<longleftrightarrow> (\<exists>f\<in>set L. frame_key f = k \<or> k \<in> set (frame_flags f))))
         \<and> hasGoal \<lparr>convoGoalState = Some ''checkIn:queried'', goalStateChanged = False\<rparr> ''queried''
         \<and> getGoalNames \<lparr>convoGoalState = Some ''checkIn:queried'', goalStateChanged = False\<rparr>
             = [JString ''checkIn'']"
proof (intro conjI impI)
  show "hasGoal r k \<longleftrightarrow> delimited_in k (case convoGoalState r of None \<Rightarrow> [] | Some s \<Rightarrow> s)"
    using assms by (rule hasGoal_delimited)
  show "hasGoal (setGoalStates r L) k \<longleftrightarrow> (\<exists>f\<in>set L. frame_key f = k \<or> k \<in> set (frame_flags f))"
    if "list_all wf_frame L"
    using inSJN_frames[OF assms that] by (simp add: hasGoal_def getGoalsRaw_def setGoalStates_def)
  show "hasGoal \<lparr>convoGoalState = Some ''checkIn:queried'', goalStateChanged = False\<rparr> ''queried''"
    by code_simp
  show "getGoalNames \<lparr>convoGoalState = Some ''checkIn:queried'', goalStateChanged = False\<rparr>
       = [JString ''checkIn'']"
    by code_simp
qed

theorem hasGoal_word_boundary_witness:
  "''check'' \<noteq> [] \<and> list_all is_word_char ''check''
   \<and> list_all wf_frame [[(''key'', JString ''checkIn''), (''queried'', JBool True)]]
   \<and> setGoalStates \<lparr>convoGoalState = None, goalStateChanged = False\<rparr>
        [[(''key'', JString ''checkIn''), (''queried'', JBool True)]]
      = \<lparr>convoGoalState = Some ''checkIn:queried'', goalStateChanged = False\<rparr>
   \<and> \<not> hasGoal \<lparr>convoGoalState = Some ''checkIn:queried'', goalStateChanged = False\<rparr> ''check''
   \<and> \<not> delimited_in ''check'' ''checkIn:queried''"
proof -
  let ?L = "[[(''key'', JString ''checkIn''), (''queried'', JBool True)]]"
  let ?r = "\<lparr>convoGoalState = None, goalStateChanged = False\<rparr>"
  have k: "''check'' \<noteq> []" "list_all is_word_char ''check''"
    by (simp_all add: is_word_char_def is_alpha_def is_lower_def is_upper_def is_digit_def)
  have wf: "list_all wf_frame ?L"
    by (simp add: wf_frame_def is_alpha_word_def is_lower_word_def is_alpha_def is_lower_def is_upper_def)
  have st: "setGoalStates ?r ?L = \<lparr>convoGoalState = Some ''checkIn:queried'', goalStateChanged = False\<rparr>"
    by code_simp
  have fl: "\<not> (\<exists>f\<in>set ?L. frame_key f = ''check'' \<or> ''check'' \<in> set (frame_flags f))"
    by (simp add: frame_key_def frame_flags_def js_get_def)
  from hasGoal_word_boundary[OF k, of ?r ?L] wf fl
  have n: "\<not> hasGoal (setGoalStates ?r ?L) ''check''" by blast
  then have n': "\<not> hasGoal \<lparr>convoGoalState = Some ''checkIn:queried'', goalStateChanged = False\<rparr> ''check''"
    unfolding st .
  from hasGoal_word_boundary[OF k, of "\<lparr>convoGoalState = Some ''checkIn:queried'', goalStateChanged = False\<rparr>" ?L] n'
  have "\<not> delimited_in ''check'' ''checkIn:queried''" by simp
  then show ?thesis using k wf st n' by blast
qed

section \<open>Composition of the output\<close>

lemma foldl_ask_step_nonempty:
  "acc \<noteq> [] \<Longrightarrow>
   foldl (ask_step n) acc es
   = acc @ concat (map (\<lambda>(ndx, str).
        (if ndx = 0 then pauseStr else if int ndx = int n - 1 then '' or '' else '', '') @ str) es)"
proof (induction es arbitrary: acc)
  case Nil
  then show ?case by simp
next
  case (Cons e es)
  obtain ndx str where e: "e = (ndx, str)" by (cases e)
  have "ask_step n acc e \<noteq> []" using Cons.prems e by (simp add: ask_step_def)
  then show ?case using Cons.IH[of "ask_step n acc e"] Cons.prems e
    by (simp add: ask_step_def)
qed

lemma ask_joins_tail:
  "0 < i \<Longrightarrow> n = i + length qs \<Longrightarrow>
   concat (map (\<lambda>(ndx, str).
        (if ndx = 0 then pauseStr else if int ndx = int n - 1 then '' or '' else '', '') @ str)
      (enumerate i qs)) = ask_tail qs"
proof (induction qs arbitrary: i)
  case Nil
  then show ?case by (simp add: ask_tail_def)
next
  case (Cons q qs)
  show ?case
  proof (cases qs)
    case Nil
    then show ?thesis using Cons.prems by (simp add: ask_tail_def)
  next
    case (Cons q' qs')
    have "concat (map (\<lambda>(ndx, str).
        (if ndx = 0 then pauseStr else if int ndx = int n - 1 then '' or '' else '', '') @ str)
      (enumerate (Suc i) qs)) = ask_tail qs"
      using Cons.prems by (intro Cons.IH) auto
    moreover have "int i \<noteq> int n - 1" using Cons.prems Cons by simp
    ultimately show ?thesis using Cons.prems Cons by (simp add: ask_tail_def)
  qed
qed

text \<open>
  C7 (ask-buffer composition), as amended. For a flush with a non-empty ask-buffer
  \<open>q1, ..., qn\<close>: when the composed say-buffer is not empty, the buffer built is the
  say-buffer, the 500 ms pause and \<open>q1\<close>, then \<open>, \<close> before each of \<open>q2, ..., q(n-1)\<close> and
  \<open> or \<close> before \<open>qn\<close> (for \<open>n\<close> at least 2); when the say-buffer is empty and \<open>q1\<close> is
  not, the buffer starts with \<open>q1\<close>, without a pause, and goes on with the same joins. The
  output of the flush is that buffer after the prosody wrapper and the replacement of
  \<open> & \<close>.
\<close>

theorem ask_buffer_composition:
  assumes "askQueue om = q1 # qs"
  shows "(foldl say_step [] (sayQueue om) \<noteq> [] \<longrightarrow>
            buildOutBuffer om = foldl say_step [] (sayQueue om) @ pauseStr @ q1 @ ask_tail qs)
         \<and> (foldl say_step [] (sayQueue om) = [] \<and> q1 \<noteq> [] \<longrightarrow>
            buildOutBuffer om = q1 @ ask_tail qs)
         \<and> snd (snd (sendFromQueue om None))
             = replaceAmp (wrapProsody (spokenRate om) (buildOutBuffer om))"
proof (intro conjI impI)
  let ?n = "length (askQueue om)"
  let ?S = "foldl say_step [] (sayQueue om)"
  have tail: "concat (map (\<lambda>(ndx, str).
        (if ndx = 0 then pauseStr else if int ndx = int ?n - 1 then '' or '' else '', '') @ str)
      (enumerate (Suc 0) qs)) = ask_tail qs"
    using assms by (intro ask_joins_tail) auto
  show "buildOutBuffer om = ?S @ pauseStr @ q1 @ ask_tail qs" if "?S \<noteq> []"
    using foldl_ask_step_nonempty[OF that, of ?n "enumerate 0 (askQueue om)"] tail assms
    by (simp add: buildOutBuffer_def)
  show "buildOutBuffer om = q1 @ ask_tail qs" if "?S = [] \<and> q1 \<noteq> []"
  proof -
    have "buildOutBuffer om = foldl (ask_step ?n) q1 (enumerate (Suc 0) qs)"
      using that assms by (simp add: buildOutBuffer_def ask_step_def)
    then show ?thesis
      using foldl_ask_step_nonempty[of q1 ?n "enumerate (Suc 0) qs"] that tail by simp
  qed
  show "snd (snd (sendFromQueue om None))
             = replaceAmp (wrapProsody (spokenRate om) (buildOutBuffer om))"
    by (simp add: sendFromQueue_def Let_def)
qed

theorem ask_buffer_composition_witness:
  "askQueue \<lparr>spokenRate = None, asked = 0, sayQueue = [''Sure.''], askQueue = [''a'', ''b'', ''c''],
      keepConversationRunning = True, speaking = True\<rparr> = [''a'', ''b'', ''c'']
   \<and> foldl say_step [] [''Sure.''] \<noteq> []
   \<and> buildOutBuffer \<lparr>spokenRate = None, asked = 0, sayQueue = [''Sure.''], askQueue = [''a'', ''b'', ''c''],
      keepConversationRunning = True, speaking = True\<rparr> = ''Sure.'' @ pauseStr @ ''a, b or c''"
proof -
  let ?om = "\<lparr>spokenRate = None, asked = 0, sayQueue = [''Sure.''], askQueue = [''a'', ''b'', ''c''],
      keepConversationRunning = True, speaking = True\<rparr>"
  have a: "askQueue ?om = ''a'' # [''b'', ''c'']" by simp
  have s: "foldl say_step [] (sayQueue ?om) = ''Sure.''" by (simp add: say_step_def)
  show ?thesis using ask_buffer_composition[OF a] s by (simp add: ask_tail_def)
qed

theorem ask_buffer_counterexample:
  "snd (snd (sendFromQueue \<lparr>spokenRate = None, asked = 102 / 100, sayQueue = [],
      askQueue = [''a'', ''b'', ''c''], keepConversationRunning = True, speaking = True\<rparr> None))
   = ''a, b or c''"
  by (simp add: sendFromQueue_def buildOutBuffer_def ask_step_def wrapProsody_def enumerate_eq_zip upt_rec Let_def)

section \<open>Properties of the interpolation\<close>

lemma params_char_special:
  "\<not> params_char CHR ''{''" "\<not> params_char CHR ''}''" "\<not> params_char CHR ''|''"
  "\<not> params_char CHR ''[''" "\<not> params_char CHR '']''"
  by (simp_all add: params_char_def is_alpha_def is_lower_def is_upper_def is_digit_def is_space_def)

lemma is_alpha_special:
  "\<not> is_alpha CHR ''{''" "\<not> is_alpha CHR ''}''" "\<not> is_alpha CHR ''|''"
  by (simp_all add: is_alpha_def is_lower_def is_upper_def)

lemma is_alpha_params_char: "is_alpha c \<Longrightarrow> params_char c"
  by (simp add: params_char_def)

lemma regex_exec_Some:
  "regex_exec matchAt s = Some (i, m, cap) \<Longrightarrow> i \<le> length s \<and> matchAt (drop i s) = Some (m, cap)"
proof (induction s arbitrary: i)
  case Nil
  then show ?case by auto
next
  case (Cons c cs)
  show ?case
  proof (cases "matchAt (c # cs)")
    case None
    with Cons.prems obtain j where j: "regex_exec matchAt cs = Some (j, m, cap)" "i = Suc j"
      by auto
    from Cons.IH[OF j(1)] j(2) show ?thesis by simp
  next
    case (Some a)
    with Cons.prems show ?thesis by (cases a) auto
  qed
qed

lemma match_params_Some:
  assumes "match_params t = Some (m, cap)"
  shows "m = slot_ref cap \<and> list_all params_char cap \<and> (\<exists>rest. t = m @ rest)"
proof -
  let ?name = "takeWhile params_char (drop 2 t)"
  let ?rest = "dropWhile params_char (drop 2 t)"
  from assms have t2: "take 2 t = ''[[''"
    by (simp add: match_params_def split: if_splits)
  with assms have r2: "take 2 ?rest = '']]''" and m: "m = ''[['' @ ?name @ '']]''" and cap: "cap = ?name"
    by (auto simp: match_params_def Let_def split: if_splits)
  have "t = take 2 t @ drop 2 t" by simp
  also have "drop 2 t = ?name @ ?rest" by simp
  also have "?rest = take 2 ?rest @ drop 2 ?rest" by simp
  finally have "t = ''[['' @ ?name @ '']]'' @ drop 2 ?rest" using t2 r2 by simp
  then have "t = m @ drop 2 ?rest" using m by simp
  moreover have "list_all params_char cap" unfolding cap by (simp add: list_all_iff) (meson set_takeWhileD)
  ultimately show ?thesis using m cap by (auto simp: slot_ref_def)
qed

lemma regex_exec_params:
  assumes "regex_exec match_params s = Some (i, m, cap)"
  shows "m = slot_ref cap \<and> list_all params_char cap
         \<and> s = take i s @ slot_ref cap @ drop (i + length m) s"
proof -
  from regex_exec_Some[OF assms] have i: "i \<le> length s" and mt: "match_params (drop i s) = Some (m, cap)"
    by auto
  from match_params_Some[OF mt] obtain rest where
    m: "m = slot_ref cap" and pc: "list_all params_char cap" and d: "drop i s = m @ rest" by auto
  have "drop (i + length m) s = drop (length m) (drop i s)" by (simp add: add.commute)
  also have "\<dots> = rest" using d by simp
  finally have r: "drop (i + length m) s = rest" .
  have "s = take i s @ drop i s" by simp
  then have "s = take i s @ m @ rest" using d by simp
  then show ?thesis using m pc r by simp
qed

lemma fewer_brackets:
  assumes "CHR ''['' \<notin> set rep"
  shows "length (filter (\<lambda>c. c = CHR ''['') (pre @ rep @ post))
         < length (filter (\<lambda>c. c = CHR ''['') (pre @ slot_ref cap @ post))"
proof -
  have "filter (\<lambda>c. c = CHR ''['') rep = []" using assms by (auto simp: filter_empty_conv)
  then show ?thesis by (simp add: slot_ref_def)
qed

text \<open>
  The interpolation returns when no text of the store holds an opening bracket: every
  replacement then lowers the number of opening brackets.
\<close>

lemma interpolation_returns:
  assumes "\<forall>st name. CHR ''['' \<notin> set (fst (store st name))"
  shows "\<exists>res. interpolateParamsFromStore match_params store st s = Some res"
proof (induction "length (filter (\<lambda>c. c = CHR ''['') s)" arbitrary: s st rule: less_induct)
  case less
  show ?case
  proof (cases "regex_exec match_params s")
    case None
    then have "interpolateParamsFromStore match_params store st s = Some (s, st)"
      by (subst interpolateParamsFromStore.simps) simp
    then show ?thesis by blast
  next
    case (Some a)
    obtain i m cap where a: "a = (i, m, cap)" by (cases a)
    obtain rep st' where g: "store st cap = (rep, st')" by (cases "store st cap")
    let ?pre = "take i s" and ?post = "drop (i + length m) s"
    from regex_exec_params[OF Some[unfolded a]]
    have s: "s = ?pre @ slot_ref cap @ ?post" by auto
    have "CHR ''['' \<notin> set rep" using assms g by (metis fst_conv)
    then have "length (filter (\<lambda>c. c = CHR ''['') (?pre @ rep @ ?post))
               < length (filter (\<lambda>c. c = CHR ''['') (?pre @ slot_ref cap @ ?post))"
      by (rule fewer_brackets)
    then have dec: "length (filter (\<lambda>c. c = CHR ''['') (interpolate s m i rep))
                    < length (filter (\<lambda>c. c = CHR ''['') s)"
      using s by (simp add: interpolate_def)
    from less[OF dec] obtain res where
      "interpolateParamsFromStore match_params store st' (interpolate s m i rep) = Some res"
      by blast
    moreover have "interpolateParamsFromStore match_params store st s
          = interpolateParamsFromStore match_params store st' (interpolate s m i rep)"
      by (subst interpolateParamsFromStore.simps) (simp add: Some a g)
    ultimately show ?thesis by simp
  qed
qed

text \<open>
  The interpolation does not return when the store gives back, for the reference found, a
  text that leaves the string as it was.
\<close>

lemma interpolation_repeats:
  assumes m: "regex_exec varExtractionRE s = Some (i, mt, cap)"
    and g: "store st cap = (rep, st)" and same: "interpolate s mt i rep = s"
  shows "interpolateParamsFromStore varExtractionRE store st s = None"
proof (rule ccontr)
  assume "interpolateParamsFromStore varExtractionRE store st s \<noteq> None"
  then obtain y where y: "interpolateParamsFromStore varExtractionRE store st s = Some y" by blast
  have "varExtractionRE = varExtractionRE \<and> store = store \<and> st = st \<and> s = s \<longrightarrow> False"
  proof (rule interpolateParamsFromStore.raw_induct[where
        P="\<lambda>re' store' st' s' y. re' = varExtractionRE \<and> store' = store \<and> st' = st \<and> s' = s \<longrightarrow> False",
        OF _ y], goal_cases)
    case (1 f re' store' st' s' y')
    show ?case
    proof
      assume e: "re' = varExtractionRE \<and> store' = store \<and> st' = st \<and> s' = s"
      with 1(2) m g same have "f varExtractionRE store st s = Some y'" by simp
      with 1(1) e show False by blast
    qed
  qed
  then show False by simp
qed

lemma pickAndInterpolate_returns:
  assumes "\<forall>r name. CHR ''['' \<notin> set (sessionStore convo r name)"
  shows "pickAndInterpolate convo p r \<noteq> None"
proof -
  have "\<forall>st name. CHR ''['' \<notin> set (fst ((\<lambda>st name. (sessionStore convo r name, st)) (st::unit) name))"
    using assms by simp
  from interpolation_returns[OF this, of "()" "pick convo p r"]
  show ?thesis by (auto simp: pickAndInterpolate_def)
qed

section \<open>Properties of the goal loop\<close>

lemma length_js_split: "length (js_split c s) = Suc (length (filter (\<lambda>x. x = c) s))"
  by (induction s) (auto split: list.splits)

lemma js_split_pieces: "x \<in> set (js_split c s) \<Longrightarrow> c \<notin> set x \<and> set x \<subseteq> set s"
proof (induction s arbitrary: x)
  case Nil
  then show ?case by simp
next
  case (Cons a s)
  show ?case
  proof (cases "a = c")
    case True
    then show ?thesis using Cons by auto
  next
    case False
    obtain r rs where rs: "js_split c s = r # rs"
      by (cases "js_split c s") (use length_js_split[of c s] in auto)
    then have "x = a # r \<or> x \<in> set rs" using Cons.prems False by simp
    then show ?thesis
    proof
      assume "x = a # r"
      moreover have "c \<notin> set r \<and> set r \<subseteq> set s" using Cons.IH[of r] rs by simp
      ultimately show ?thesis using False by auto
    next
      assume "x \<in> set rs"
      then have "c \<notin> set x \<and> set x \<subseteq> set s" using Cons.IH[of x] rs by simp
      then show ?thesis by auto
    qed
  qed
qed

lemma length_sjnToArr:
  "length (sjnToArr (Some s)) = (if s = [] then 0 else Suc (length (filter (\<lambda>x. x = CHR '';'') s)))"
  by (simp add: sjnToArr_def length_js_split)

lemma filter_drop_le: "length (filter P (drop n xs)) \<le> length (filter P xs)"
proof -
  have "length (filter P xs) = length (filter P (take n xs)) + length (filter P (drop n xs))"
    by (metis append_take_drop_id filter_append length_append)
  then show ?thesis by simp
qed

lemma replace_goal_count:
  "length (filter P (replace_goal k prev s)) \<le> length (filter P s)"
proof (induction s arbitrary: prev)
  case Nil
  then show ?case by simp
next
  case (Cons c cs)
  show ?case
  proof (cases "clearInSJN_at k prev (c # cs)")
    case None
    then show ?thesis using Cons[of "Some c"] by simp
  next
    case (Some n)
    then show ?thesis using filter_drop_le[of P n "c # cs"] by simp
  qed
qed

lemma replace_semis_count:
  "length (filter P (replace_semis s)) \<le> length (filter P s)"
  by (induction s rule: replace_semis.induct) auto

lemma strip_count:
  "length (filter P (strip_last_semi s)) \<le> length (filter P s)"
  "length (filter P (strip_first_semi s)) \<le> length (filter P s)"
proof -
  have "length (filter P (butlast s)) \<le> length (filter P s)"
    by (induction s) auto
  then show "length (filter P (strip_last_semi s)) \<le> length (filter P s)"
    by (simp add: strip_last_semi_def)
  have "length (filter P (tl s)) \<le> length (filter P s)" by (cases s) auto
  then show "length (filter P (strip_first_semi s)) \<le> length (filter P s)"
    by (simp add: strip_first_semi_def)
qed

lemma clearInSJN_count:
  "length (filter P (clearInSJN (Some s) k)) \<le> length (filter P s)"
  unfolding clearInSJN_def using replace_goal_count[of P k None s]
    replace_semis_count[of P "replace_goal k None s"]
    strip_count(1)[of P "replace_semis (replace_goal k None s)"]
    strip_count(2)[of P "strip_last_semi (replace_semis (replace_goal k None s))"]
  by simp

lemma clearInSJN_empty: "clearInSJN (Some []) k = []"
  by (simp add: clearInSJN_def strip_last_semi_def strip_first_semi_def)

lemma clearInSJN_size:
  "length (sjnToArr (Some (clearInSJN (Some s) k))) \<le> length (sjnToArr (Some s))"
proof (cases "s = []")
  case True
  then show ?thesis by (simp add: clearInSJN_empty)
next
  case False
  then show ?thesis
    using clearInSJN_count[of "\<lambda>x. x = CHR '';''" s k] by (simp add: length_sjnToArr)
qed

lemma sjnToArr_None: "sjnToArr None = sjnToArr (Some [])"
  by (simp add: sjnToArr_def)

lemma clearGoal_size:
  "length (getGoalStates (clearGoal r g)) \<le> length (getGoalStates r)"
proof -
  have "length (sjnToArr (Some (clearInSJN (Some s) k))) \<le> length (sjnToArr (convoGoalState r))"
    if "s = (case convoGoalState r of None \<Rightarrow> [] | Some s \<Rightarrow> s)" for s k
    using that clearInSJN_size[of s k] by (cases "convoGoalState r") (simp_all add: sjnToArr_None)
  then show ?thesis
    by (simp add: clearGoal_def getGoalStates_def getGoalsRaw_def arrToArrObj_def Let_def)
qed

lemma clearGoal_flag: "goalStateChanged (clearGoal r g) = goalStateChanged r"
  by (simp add: clearGoal_def Let_def)


lemma js_to_string_literal:
  "v = JBool b \<or> v = JUndefined \<Longrightarrow> CHR '';'' \<notin> set (js_to_string v)"
  by (cases v) auto

lemma alist_update_entries:
  "e \<in> set (AList.update p v al) \<Longrightarrow> e = (p, v) \<or> e \<in> set al"
  by (induction al) (auto split: if_splits)

lemma js_set_entries:
  "e \<in> set (js_set obj p v) \<Longrightarrow> e = (p, v) \<or> e \<in> set obj"
  using alist_update_entries[of e p v obj] by (auto simp: js_set_def split: if_splits)

lemma foldl_js_set_entries:
  "e \<in> set (foldl (\<lambda>arrObj arrObjProp. js_set arrObj arrObjProp v) acc ps) \<Longrightarrow>
   e \<in> set acc \<or> (\<exists>p\<in>set ps. e = (p, v))"
proof (induction ps arbitrary: acc)
  case Nil
  then show ?case by simp
next
  case (Cons p ps)
  from Cons.IH[OF Cons.prems[simplified]] js_set_entries[of e acc p v]
  show ?case by auto
qed

lemma semi_free_decoded:
  assumes "CHR '';'' \<notin> set s"
  shows "semi_free (arrToArrObj_item s)"
proof -
  let ?ps = "js_split CHR '':'' s"
  have ne: "?ps \<noteq> []" using length_js_split[of "CHR '':''" s] by auto
  have pieces: "\<forall>x\<in>set ?ps. CHR '';'' \<notin> set x"
    using js_split_pieces[of _ "CHR '':''" s] assms by blast
  then have hd: "CHR '';'' \<notin> set (hd ?ps)" using ne by (metis hd_in_set)
  have tl: "\<forall>x\<in>set (tl ?ps). CHR '';'' \<notin> set x" using pieces ne by (metis list.set_sel(2))
  show ?thesis
    unfolding semi_free_def arrToArrObj_item_def Let_def
  proof (clarify)
    fix p v
    assume "(p, v) \<in> set (foldl (\<lambda>arrObj arrObjProp. js_set arrObj arrObjProp (JBool True))
                (js_set [] ''key'' (JString (hd ?ps))) (tl ?ps))"
    then have "(p, v) \<in> set (js_set [] ''key'' (JString (hd ?ps)))
               \<or> (\<exists>q\<in>set (tl ?ps). (p, v) = (q, JBool True))"
      by (rule foldl_js_set_entries)
    then have "(p = ''key'' \<and> v = JString (hd ?ps)) \<or> (p \<in> set (tl ?ps) \<and> v = JBool True)"
      by (auto simp: js_set_def)
    then show "CHR '';'' \<notin> set p \<and> CHR '';'' \<notin> set (js_to_string v)"
      using hd tl by auto
  qed
qed

lemma semi_free_getGoalStates: "list_all semi_free (getGoalStates r)"
proof -
  have "\<forall>x\<in>set (sjnToArr raw). CHR '';'' \<notin> set x" for raw
    using js_split_pieces[of _ "CHR '';''"] by (auto simp: sjnToArr_def Let_def)
  then show ?thesis
    using semi_free_decoded by (auto simp: getGoalStates_def arrToArrObj_def list_all_iff)
qed

lemma semi_free_js_set:
  "semi_free obj \<Longrightarrow> CHR '';'' \<notin> set p \<Longrightarrow> CHR '';'' \<notin> set (js_to_string v) \<Longrightarrow>
   semi_free (js_set obj p v)"
  unfolding semi_free_def using js_set_entries[of _ obj p v] by blast

lemma semi_free_get: "semi_free obj \<Longrightarrow> CHR '';'' \<notin> set (js_to_string (js_get obj p))"
  by (auto simp: semi_free_def js_get_def split: option.splits dest!: map_of_SomeD)

lemma set_js_keys: "set (js_keys obj) \<subseteq> fst ` set obj"
  by (auto simp: js_keys_def)

lemma foldl_encode_semi_free:
  assumes "semi_free obj" "CHR '';'' \<notin> set (js_to_string acc)" "set names \<subseteq> fst ` set obj"
  shows "CHR '';'' \<notin> set (js_to_string (foldl (\<lambda>arrItem arrObjProp.
              if arrObjProp = ''key'' then arrItem
              else if js_truthy (js_get obj arrObjProp)
                   then JString (js_to_string arrItem @ '':'' @ arrObjProp)
                   else arrItem) acc names))"
  using assms(2,3)
proof (induction names arbitrary: acc)
  case Nil
  then show ?case by simp
next
  case (Cons n names)
  let ?acc' = "if n = ''key'' then acc
               else if js_truthy (js_get obj n) then JString (js_to_string acc @ '':'' @ n)
               else acc"
  have "CHR '';'' \<notin> set n" using Cons.prems(2) assms(1) by (auto simp: semi_free_def)
  then have "CHR '';'' \<notin> set (js_to_string ?acc')" using Cons.prems(1) by auto
  then show ?case using Cons.IH[of ?acc'] Cons.prems(2) by simp
qed

lemma semi_free_item:
  assumes "semi_free obj"
  shows "CHR '';'' \<notin> set (js_join_elem (arrObjToArr_item obj))"
proof -
  have "CHR '';'' \<notin> set (js_to_string (arrObjToArr_item obj))"
    unfolding arrObjToArr_item_def
    using assms semi_free_get[OF assms] set_js_keys by (intro foldl_encode_semi_free)
  then show ?thesis by (cases "arrObjToArr_item obj") auto
qed

lemma setGoalStates_size:
  assumes "list_all semi_free objs"
  shows "length (getGoalStates (setGoalStates r objs)) \<le> length objs"
proof -
  let ?items = "map js_join_elem (arrObjToArr objs)"
  have sf: "\<forall>x\<in>set ?items. CHR '';'' \<notin> set x"
    using assms semi_free_item by (auto simp: arrObjToArr_def list_all_iff)
  have "length (sjnToArr (Some (js_join '';'' ?items))) \<le> length ?items"
  proof (cases "?items = [] \<or> js_join '';'' ?items = []")
    case True
    then show ?thesis by (auto simp: sjnToArr_def)
  next
    case False
    then have "js_split CHR '';'' (js_join [CHR '';''] ?items) = ?items"
      using sf by (intro js_split_join) auto
    then show ?thesis using False by (simp add: sjnToArr_def)
  qed
  then show ?thesis
    by (simp add: getGoalStates_def setGoalStates_def getGoalsRaw_def arrToSJN_def
        arrToArrObj_def arrObjToArr_def)
qed

lemma updateMostRecentGoalStates_size:
  assumes "semi_free g"
  shows "length (getGoalStates (updateMostRecentGoalStates r ndx g)) \<le> length (getGoalStates r)"
proof (cases "updateArr (getGoalStates r) ndx g")
  case None
  then show ?thesis by (simp add: updateMostRecentGoalStates_def)
next
  case (Some goals)
  then have g: "goals = (getGoalStates r)[nat (int (length (getGoalStates r)) - ndx - 1) := g]"
    by (auto simp: updateArr_def split: if_splits)
  have "list_all semi_free goals"
    unfolding g using semi_free_getGoalStates[of r] assms
    by (auto simp: list_all_iff dest!: set_update_subset_insert[THEN subsetD])
  then have "length (getGoalStates (setGoalStates r goals)) \<le> length goals"
    by (rule setGoalStates_size)
  then show ?thesis using Some g by (simp add: updateMostRecentGoalStates_def)
qed

lemma updateMostRecentGoalStates_flag:
  "goalStateChanged (updateMostRecentGoalStates r ndx g) = goalStateChanged r"
  by (simp add: updateMostRecentGoalStates_def setGoalStates_def split: option.splits)


lemma getGoalStates_flag [simp]:
  "getGoalStates (r\<lparr>goalStateChanged := b\<rparr>) = getGoalStates r"
  by (simp add: getGoalStates_def getGoalsRaw_def)

lemma resolveGoal_keeps:
  assumes "keeps_stack cb" "\<not> goalStateChanged (tResponse t)"
  shows "length (getGoalStates (tResponse (resolveGoal cb key t))) \<le> length (getGoalStates (tResponse t))
         \<and> \<not> goalStateChanged (tResponse (resolveGoal cb key t))"
proof -
  obtain res t' where cb: "cb t = (res, t')" by (cases "cb t")
  have k: "length (getGoalStates (tResponse t')) \<le> length (getGoalStates (tResponse t))"
    "\<not> goalStateChanged (tResponse t')"
    using assms cb by (auto simp: keeps_stack_def split: prod.splits)
  show ?thesis
    using k clearGoal_size[of "tResponse t'" key] clearGoal_flag[of "tResponse t'" key] cb
    by (auto simp: resolveGoal_def removeGoal_def)
qed

lemma lookupGoalDef_resolver:
  "quiet_goals convo \<Longrightarrow> lookupGoalDef convo key = Some d \<Longrightarrow> goal_resolve d = Some cb \<Longrightarrow>
   keeps_stack cb"
  by (auto simp: quiet_goals_def lookupGoalDef_def split: option.splits if_splits)

lemma topInArr_Some_bound: "topInArr arr ndx = Some x \<Longrightarrow> ndx < int (length arr)"
  by (auto simp: topInArr_def split: if_splits)

lemma startIteration_facts:
  assumes "loop_inv ls"
  shows "goalNdx (startIteration ls) = goalNdx ls + 1"
    and "0 \<le> goalNdx (startIteration ls)"
    and "\<not> goalStateChanged (tResponse (turnOf (startIteration ls)))"
    and "stack_size (startIteration ls) = stack_size ls"
    and "iterations (startIteration ls) = Suc (iterations ls)"
    and "Some (allocated (startIteration ls)) \<noteq> lastGoalWithState (startIteration ls)"
    and "moreGoalsToSeek (startIteration ls) = moreGoalsToSeek ls"
    and "tOutput (turnOf (startIteration ls)) = tOutput (turnOf ls)"
proof -
  show "goalNdx (startIteration ls) = goalNdx ls + 1" "0 \<le> goalNdx (startIteration ls)"
    using assms by (auto simp: startIteration_def loop_inv_def Let_def)
  show "\<not> goalStateChanged (tResponse (turnOf (startIteration ls)))"
    by (simp add: startIteration_def Let_def)
  show "stack_size (startIteration ls) = stack_size ls"
    by (simp add: startIteration_def Let_def stack_size_def)
  show "iterations (startIteration ls) = Suc (iterations ls)"
    by (simp add: startIteration_def Let_def)
  show "moreGoalsToSeek (startIteration ls) = moreGoalsToSeek ls"
    by (simp add: startIteration_def Let_def)
  show "tOutput (turnOf (startIteration ls)) = tOutput (turnOf ls)"
    by (simp add: startIteration_def Let_def)
  have "lastGoalWithState (startIteration ls) = lastGoalWithState ls"
    "allocated (startIteration ls) = Suc (allocated ls)"
    by (simp_all add: startIteration_def Let_def)
  moreover have "lastGoalWithState ls \<noteq> Some (Suc (allocated ls))"
  proof
    assume "lastGoalWithState ls = Some (Suc (allocated ls))"
    then have "Suc (allocated ls) \<le> allocated ls" using assms unfolding loop_inv_def by blast
    then show False by simp
  qed
  ultimately show "Some (allocated (startIteration ls)) \<noteq> lastGoalWithState (startIteration ls)"
    by simp
qed

lemma queryGoal_keeps:
  assumes "semi_free g" and "queryGoal convo tgt g ndx t = Some t'"
  shows "length (getGoalStates (tResponse t')) \<le> length (getGoalStates (tResponse t))"
    and "goalStateChanged (tResponse t') = goalStateChanged (tResponse t)"
proof -
  from assms(2) obtain om' where
    t': "t' = t\<lparr>tOutput := om',
               tResponse := updateMostRecentGoalStates (tResponse t) ndx (js_set g ''queried'' (JBool True))\<rparr>"
    by (auto simp: queryGoal_def Let_def split: option.splits)
  have "semi_free (js_set g ''queried'' (JBool True))"
    using assms(1) by (intro semi_free_js_set) auto
  then show "length (getGoalStates (tResponse t')) \<le> length (getGoalStates (tResponse t))"
    using updateMostRecentGoalStates_size[of "js_set g ''queried'' (JBool True)" "tResponse t" ndx]
    by (simp add: t')
  show "goalStateChanged (tResponse t') = goalStateChanged (tResponse t)"
    by (simp add: t' updateMostRecentGoalStates_flag)
qed

lemma queryGoal_returns:
  assumes "prompts_return convo" and "lookupGoalDef convo key = Some tgt"
    and "goal_resolve tgt = None" and "goalDefQueryable tgt"
  shows "\<exists>t'. queryGoal convo tgt g ndx t = Some t'"
proof -
  have reg: "registeredGoals convo key = Some tgt"
    using assms(2,4)
    by (auto simp: lookupGoalDef_def goalDefQueryable_def split: option.splits if_splits)
  show ?thesis
  proof (cases "pot_truthy (goal_prompt tgt)")
    case True
    then obtain p where p: "goal_prompt tgt = Some p" by (cases "goal_prompt tgt") auto
    then have "query_text tgt = Some p" using True by (simp add: query_text_def)
    then have "pickAndInterpolate convo p (tResponse t) \<noteq> None"
      using assms(1,3) reg unfolding prompts_return_def by blast
    then show ?thesis using True p by (auto simp: queryGoal_def Let_def)
  next
    case False
    then have a: "pot_truthy (goal_ask tgt)" using assms(4) by (simp add: goalDefQueryable_def)
    then obtain p where p: "goal_ask tgt = Some p" by (cases "goal_ask tgt") auto
    then have "query_text tgt = Some p" using False a by (simp add: query_text_def)
    then have "pickAndInterpolate convo p (tResponse t) \<noteq> None"
      using assms(1,3) reg unfolding prompts_return_def by blast
    then show ?thesis using False a p by (auto simp: queryGoal_def Let_def)
  qed
qed

lemma meetGoal_cases:
  "(meetGoal convo g ls = None
      \<and> (\<exists>tgt. lookupGoalDef convo (js_to_string (js_get g ''key'')) = Some tgt
            \<and> goal_resolve tgt = None \<and> goalDefQueryable tgt
            \<and> queryGoal convo tgt g (goalNdx ls) (turnOf ls) = None))
   \<or> (\<exists>t'. meetGoal convo g ls = Some (ls\<lparr>lastGoalWithState := Some (allocated ls), turnOf := t'\<rparr>)
      \<and> (t' = turnOf ls
          \<or> (\<exists>tgt. lookupGoalDef convo (js_to_string (js_get g ''key'')) = Some tgt
               \<and> ((\<exists>cb. goal_resolve tgt = Some cb \<and> t' = resolveGoal cb (js_get g ''key'') (turnOf ls))
                   \<or> (goal_resolve tgt = None
                       \<and> queryGoal convo tgt g (goalNdx ls) (turnOf ls) = Some t')))))
   \<or> meetGoal convo g ls = Some (ls\<lparr>lastGoalWithState := Some (allocated ls), moreGoalsToSeek := False\<rparr>)"
proof -
  have same: "ls\<lparr>lastGoalWithState := Some (allocated ls)\<rparr>
              = ls\<lparr>lastGoalWithState := Some (allocated ls), turnOf := turnOf ls\<rparr>" by simp
  show ?thesis
  proof (cases "lookupGoalDef convo (js_to_string (js_get g ''key''))")
    case None
    then show ?thesis by (simp add: meetGoal_def Let_def)
  next
    case (Some tgt)
    show ?thesis
    proof (cases "goal_resolve tgt")
      case None
      show ?thesis
      proof (cases "goalDefQueryable tgt \<and> \<not> js_truthy (js_get g ''queried'')")
        case False
        then have "meetGoal convo g ls
                   = Some (ls\<lparr>lastGoalWithState := Some (allocated ls), turnOf := turnOf ls\<rparr>)"
          using None Some same by (auto simp: meetGoal_def Let_def)
        then show ?thesis by blast
      next
        case True
        then have m: "meetGoal convo g ls
                   = map_option (\<lambda>t'. ls\<lparr>lastGoalWithState := Some (allocated ls), turnOf := t'\<rparr>)
                       (queryGoal convo tgt g (goalNdx ls) (turnOf ls))"
          using None Some by (simp add: meetGoal_def Let_def)
        show ?thesis
        proof (cases "queryGoal convo tgt g (goalNdx ls) (turnOf ls)")
          case qn: None
          then have "meetGoal convo g ls = None" using m by simp
          then show ?thesis using qn None Some True by blast
        next
          case (Some t')
          then have "meetGoal convo g ls
                     = Some (ls\<lparr>lastGoalWithState := Some (allocated ls), turnOf := t'\<rparr>)"
            using m by simp
          then show ?thesis using Some None \<open>lookupGoalDef convo (js_to_string (js_get g ''key'')) = Some tgt\<close>
            by blast
        qed
      qed
    next
      case cb: (Some cb)
      then show ?thesis using Some by (auto simp: meetGoal_def Let_def)
    qed
  qed
qed

lemma meetGoal_step:
  assumes q: "quiet_goals convo" and pr: "prompts_return convo" and sf: "semi_free g"
    and flag: "\<not> goalStateChanged (tResponse (turnOf ls))"
  shows "\<exists>ls'. meetGoal convo g ls = Some ls'
         \<and> stack_size ls' \<le> stack_size ls
         \<and> \<not> goalStateChanged (tResponse (turnOf ls'))
         \<and> goalNdx ls' = goalNdx ls
         \<and> iterations ls' = iterations ls
         \<and> allocated ls' = allocated ls
         \<and> lastGoalWithState ls' = Some (allocated ls)"
proof -
  from meetGoal_cases[of convo g ls] show ?thesis
  proof (elim disjE exE conjE)
    fix tgt
    assume d: "lookupGoalDef convo (js_to_string (js_get g ''key'')) = Some tgt"
      and r: "goal_resolve tgt = None" and qy: "goalDefQueryable tgt"
      and n: "queryGoal convo tgt g (goalNdx ls) (turnOf ls) = None"
    from queryGoal_returns[OF pr d r qy, of g "goalNdx ls" "turnOf ls"] n
    show ?thesis by simp
  next
    fix t' assume m: "meetGoal convo g ls = Some (ls\<lparr>lastGoalWithState := Some (allocated ls), turnOf := t'\<rparr>)"
      and "t' = turnOf ls"
    then show ?thesis using flag by (simp add: stack_size_def)
  next
    fix t' tgt cb
    assume m: "meetGoal convo g ls = Some (ls\<lparr>lastGoalWithState := Some (allocated ls), turnOf := t'\<rparr>)"
      and d: "lookupGoalDef convo (js_to_string (js_get g ''key'')) = Some tgt"
      and cb: "goal_resolve tgt = Some cb" and t': "t' = resolveGoal cb (js_get g ''key'') (turnOf ls)"
    have "keeps_stack cb" using q d cb by (rule lookupGoalDef_resolver)
    from resolveGoal_keeps[OF this flag, of "js_get g ''key''"]
    show ?thesis using m t' by (simp add: stack_size_def)
  next
    fix t' tgt
    assume m: "meetGoal convo g ls = Some (ls\<lparr>lastGoalWithState := Some (allocated ls), turnOf := t'\<rparr>)"
      and t': "queryGoal convo tgt g (goalNdx ls) (turnOf ls) = Some t'"
    from queryGoal_keeps[OF sf t']
    show ?thesis using m flag by (simp add: stack_size_def)
  next
    assume "meetGoal convo g ls = Some (ls\<lparr>lastGoalWithState := Some (allocated ls), moreGoalsToSeek := False\<rparr>)"
    then show ?thesis using flag by (simp add: stack_size_def)
  qed
qed

lemma loop_body_unfold:
  assumes inv: "loop_inv ls"
  shows "loop_body convo ls =
      (case mostRecentGoalStates (tResponse (turnOf (startIteration ls))) (goalNdx (startIteration ls)) of
           None \<Rightarrow> Some ((startIteration ls)\<lparr>moreGoalsToSeek := False\<rparr>)
         | Some goalWithState \<Rightarrow> meetGoal convo goalWithState (startIteration ls))"
  using startIteration_facts(6)[OF inv]
  by (simp add: loop_body_def Let_def split: option.splits)

lemma loop_body_step:
  assumes q: "quiet_goals convo" and pr: "prompts_return convo" and inv: "loop_inv ls"
  shows "\<exists>ls'. loop_body convo ls = Some ls'
         \<and> loop_inv ls'
         \<and> iterations ls' = Suc (iterations ls)
         \<and> stack_size ls' \<le> stack_size ls
         \<and> (moreGoalsToSeek ls' \<longrightarrow> goalNdx ls' < int (stack_size ls))
         \<and> goalNdx ls' = goalNdx ls + 1"
proof -
  define ls1 where "ls1 = startIteration ls"
  note s = startIteration_facts[OF inv, folded ls1_def]
  note body = loop_body_unfold[OF inv, of convo, folded ls1_def]
  show ?thesis
  proof (cases "mostRecentGoalStates (tResponse (turnOf ls1)) (goalNdx ls1)")
    case None
    then have "loop_body convo ls = Some (ls1\<lparr>moreGoalsToSeek := False\<rparr>)" by (simp add: body)
    moreover have "\<forall>r. lastGoalWithState ls1 = Some r \<longrightarrow> r \<le> allocated ls1"
      using inv by (auto simp: ls1_def startIteration_def Let_def loop_inv_def)
    ultimately show ?thesis using s by (simp add: loop_inv_def stack_size_def)
  next
    case (Some g)
    then have top: "topInArr (getGoalStates (tResponse (turnOf ls1))) (goalNdx ls1) = Some g"
      by (simp only: mostRecentGoalStates_def)
    then have "goalNdx ls1 < int (length (getGoalStates (tResponse (turnOf ls1))))"
      by (rule topInArr_Some_bound)
    then have bound: "goalNdx ls1 < int (stack_size ls)" using s(4) by (simp add: stack_size_def)
    have "g \<in> set (getGoalStates (tResponse (turnOf ls1)))"
      using top by (auto simp: topInArr_def split: if_splits)
    then have gsf: "semi_free g"
      using semi_free_getGoalStates[of "tResponse (turnOf ls1)"] by (simp add: list_all_iff)
    have eq: "loop_body convo ls = meetGoal convo g ls1" using Some by (simp add: body)
    from meetGoal_step[OF q pr gsf s(3)] obtain ls' where
      m: "meetGoal convo g ls1 = Some ls'" "stack_size ls' \<le> stack_size ls1"
        "\<not> goalStateChanged (tResponse (turnOf ls'))" "goalNdx ls' = goalNdx ls1"
        "iterations ls' = iterations ls1" "allocated ls' = allocated ls1"
        "lastGoalWithState ls' = Some (allocated ls1)" by blast
    have "loop_inv ls'" using m s by (simp add: loop_inv_def)
    then show ?thesis using eq m s bound by simp
  qed
qed

lemma promiseWhile_halts:
  assumes q: "quiet_goals convo" and pr: "prompts_return convo"
  shows "loop_inv ls \<Longrightarrow> nat (int (stack_size ls) - goalNdx ls - 1) = m \<Longrightarrow>
         \<exists>ls'. promiseWhile loop_condition (loop_body convo) ls = Some ls'
               \<and> iterations ls' \<le> iterations ls + m + 1"
proof (induction m arbitrary: ls rule: less_induct)
  case (less m)
  show ?case
  proof (cases "loop_condition ls")
    case False
    then show ?thesis by (subst promiseWhile.simps) simp
  next
    case True
    from loop_body_step[OF q pr less.prems(1)] obtain ls1 where
      b1: "loop_body convo ls = Some ls1" and inv1: "loop_inv ls1"
      and it1: "iterations ls1 = Suc (iterations ls)"
      and sz1: "stack_size ls1 \<le> stack_size ls"
      and more1: "moreGoalsToSeek ls1 \<longrightarrow> goalNdx ls1 < int (stack_size ls)"
      and nx1: "goalNdx ls1 = goalNdx ls + 1" by blast
    have unf: "promiseWhile loop_condition (loop_body convo) ls
               = promiseWhile loop_condition (loop_body convo) ls1"
      using True b1 by (subst promiseWhile.simps) simp
    show ?thesis
    proof (cases "loop_condition ls1")
      case False
      then have "promiseWhile loop_condition (loop_body convo) ls1 = Some ls1"
        by (subst promiseWhile.simps) simp
      then show ?thesis using unf it1 by simp
    next
      case c1: True
      then have more: "moreGoalsToSeek ls1" by (simp add: loop_condition_def)
      define m' where "m' = nat (int (stack_size ls1) - goalNdx ls1 - 1)"
      have lt: "m' < m" using more more1 nx1 sz1 less.prems(2) unfolding m'_def by linarith
      from less.IH[OF lt inv1 m'_def[symmetric]]
      obtain ls' where r: "promiseWhile loop_condition (loop_body convo) ls1 = Some ls'"
        "iterations ls' \<le> iterations ls1 + m' + 1" by blast
      then show ?thesis using unf it1 lt by simp
    qed
  qed
qed


lemma loop_inv_start: "loop_inv (loop_start t)"
  by (simp add: loop_inv_def loop_start_def)

text \<open>
  C2 (goal-loop termination), as amended. When no resolver of the goal table lengthens the
  goal stack or sets \<open>goalStateChanged\<close>, and the interpolation of the prompts and questions
  of the table returns, the goal loop halts on every initial stack of \<open>n\<close> frames, after at
  most \<open>n + 1\<close> iterations, hence at most \<open>2 * n + 1\<close>.
\<close>

theorem goal_loop_halts:
  assumes "quiet_goals convo" and "prompts_return convo"
  shows "\<exists>ls. goalLoop convo t = Some ls
              \<and> iterations ls \<le> length (getGoalStates (tResponse t)) + 1
              \<and> iterations ls \<le> 2 * length (getGoalStates (tResponse t)) + 1"
proof -
  have "nat (int (stack_size (loop_start t)) - goalNdx (loop_start t) - 1)
        = length (getGoalStates (tResponse t))"
    by (simp add: stack_size_def loop_start_def)
  from promiseWhile_halts[OF assms loop_inv_start this]
  obtain ls where "promiseWhile loop_condition (loop_body convo) (loop_start t) = Some ls"
    "iterations ls \<le> iterations (loop_start t) + length (getGoalStates (tResponse t)) + 1"
    by blast
  then show ?thesis by (auto simp: goalLoop_def loop_start_def)
qed

lemma quiet_greeting_script: "quiet_goals greeting_script"
  by (auto simp: quiet_goals_def greeting_script_def keeps_stack_def succeed_def split: if_splits)

lemma prompts_return_greeting_script: "prompts_return greeting_script"
proof -
  have "\<forall>r name. CHR ''['' \<notin> set (sessionStore greeting_script r name)"
    by (simp add: greeting_script_def named_store_def)
  then show ?thesis unfolding prompts_return_def using pickAndInterpolate_returns by blast
qed

theorem goal_loop_halts_witness:
  "quiet_goals greeting_script \<and> prompts_return greeting_script
   \<and> map_option asked_queue (goalLoop greeting_script (turn_on ''k;b;k''))
     = Some [''Hello Ann, which day?'']
   \<and> (\<exists>ls. goalLoop greeting_script (turn_on ''k;b;k'') = Some ls
            \<and> iterations ls \<le> 2 * length (getGoalStates (tResponse (turn_on ''k;b;k''))) + 1)"
proof -
  have e: "map_option asked_queue (goalLoop greeting_script (turn_on ''k;b;k''))
           = Some [''Hello Ann, which day?'']"
    by code_simp
  show ?thesis
    using goal_loop_halts[OF quiet_greeting_script prompts_return_greeting_script,
        of "turn_on ''k;b;k''"]
      quiet_greeting_script prompts_return_greeting_script e
    by blast
qed

lemma echo_script_prompt:
  "pickAndInterpolate echo_script (PotString ''Did you say [[word]]?'') r = None"
proof -
  have m: "regex_exec match_params ''Did you say [[word]]?'' = Some (12, ''[[word]]'', ''word'')"
    by code_simp
  have "interpolateParamsFromStore match_params (\<lambda>st name. (sessionStore echo_script r name, st)) ()
          ''Did you say [[word]]?'' = None"
    by (rule interpolation_repeats[OF m])
       (simp_all add: echo_script_def echo_store_def interpolate_def)
  then show ?thesis by (simp add: pickAndInterpolate_def echo_script_def first_candidate_def)
qed

lemma echo_script_loops: "goalLoop echo_script (turn_on ''b'') = None"
proof -
  let ?ls = "loop_start (turn_on ''b'')"
  let ?ls1 = "startIteration ?ls"
  let ?d = "\<lparr>goal_resolve = None, goal_prompt = Some (PotString ''Did you say [[word]]?''),
             goal_ask = None\<rparr>"
  have c: "loop_condition ?ls"
    by (simp add: loop_condition_def loop_start_def turn_on_def fresh_output_def)
  have g: "mostRecentGoalStates (tResponse (turnOf ?ls1)) (goalNdx ?ls1) = Some [(''key'', JString ''b'')]"
    by code_simp
  have q: "queryGoal echo_script ?d [(''key'', JString ''b'')] (goalNdx ?ls1) (turnOf ?ls1) = None"
    using echo_script_prompt by (simp add: queryGoal_def Let_def)
  have l: "lookupGoalDef echo_script (js_to_string (js_get [(''key'', JString ''b'')] ''key'')) = Some ?d"
    by (simp add: lookupGoalDef_def echo_script_def js_get_def)
  have "meetGoal echo_script [(''key'', JString ''b'')] ?ls1 = None"
    using q l by (simp add: meetGoal_def Let_def goalDefQueryable_def js_get_def)
  then have "loop_body echo_script ?ls = None"
    using g loop_body_unfold[OF loop_inv_start, of echo_script "turn_on ''b''"] by simp
  then show ?thesis
    using c by (subst goalLoop_def, subst promiseWhile.simps) simp
qed

theorem goal_loop_counterexample:
  "map_option iterations (goalLoop checkIn_script (turn_on ''checkInDetails'')) = Some 7
   \<and> length (getGoalStates (tResponse (turn_on ''checkInDetails''))) = 1
   \<and> goalLoop echo_script (turn_on ''b'') = None"
proof -
  have "map_option iterations (goalLoop checkIn_script (turn_on ''checkInDetails'')) = Some 7"
    by code_simp
  moreover have "length (getGoalStates (tResponse (turn_on ''checkInDetails''))) = 1"
    by code_simp
  ultimately show ?thesis using echo_script_loops by simp
qed


lemma promiseWhile_invariant:
  assumes "promiseWhile c b s = Some s'"
  shows "(\<forall>x x'. I x \<and> c x \<and> b x = Some x' \<longrightarrow> I x') \<longrightarrow> I s \<longrightarrow> I s' \<and> \<not> c s'"
proof (rule promiseWhile.raw_induct[where P="\<lambda>c b s s'. (\<forall>x x'. I x \<and> c x \<and> b x = Some x' \<longrightarrow> I x') \<longrightarrow> I s \<longrightarrow> I s' \<and> \<not> c s'",
        OF _ assms], goal_cases)
  case (1 pw c b s y)
  show ?case
  proof (cases "c s")
    case True
    with 1(2) obtain x' where x': "b s = Some x'" "pw c b x' = Some y"
      by (auto split: option.splits)
    from 1(1)[OF x'(2)] show ?thesis using True x'(1) by blast
  next
    case False
    with 1(2) show ?thesis by auto
  qed
qed

lemma resolveGoal_asked:
  assumes "modest cb"
  shows "asked (tOutput t) \<le> asked (tOutput (resolveGoal cb key t))
         \<and> asked (tOutput (resolveGoal cb key t)) \<le> asked (tOutput t) + 1"
proof -
  obtain res t' where cb: "cb t = (res, t')" by (cases "cb t")
  then have "asked (tOutput t) \<le> asked (tOutput t') \<and> asked (tOutput t') \<le> asked (tOutput t) + 1"
    using assms by (auto simp: modest_def split: prod.splits)
  then show ?thesis using cb by (simp add: resolveGoal_def removeGoal_def)
qed

lemma queryGoal_asked:
  assumes "queryGoal convo tgt g ndx t = Some t'"
  shows "asked (tOutput t) \<le> asked (tOutput t') \<and> asked (tOutput t') \<le> asked (tOutput t) + 1"
  using assms
  by (auto simp: queryGoal_def Let_def prompt_def ask_def split: option.splits if_splits)

lemma lookupGoalDef_modest:
  "modest_goals convo \<Longrightarrow> lookupGoalDef convo key = Some d \<Longrightarrow> goal_resolve d = Some cb \<Longrightarrow>
   modest cb"
  by (auto simp: modest_goals_def lookupGoalDef_def split: option.splits if_splits)

lemma meetGoal_asked:
  assumes "modest_goals convo" and "meetGoal convo g ls = Some ls'"
  shows "asked (tOutput (turnOf ls)) \<le> asked (tOutput (turnOf ls'))
         \<and> asked (tOutput (turnOf ls')) \<le> asked (tOutput (turnOf ls)) + 1"
proof -
  from meetGoal_cases[of convo g ls] show ?thesis
  proof (elim disjE exE conjE)
    assume "meetGoal convo g ls = None"
    then show ?thesis using assms(2) by simp
  next
    fix t' assume "meetGoal convo g ls = Some (ls\<lparr>lastGoalWithState := Some (allocated ls), turnOf := t'\<rparr>)"
      "t' = turnOf ls"
    then show ?thesis using assms(2) by auto
  next
    fix t' tgt cb
    assume m: "meetGoal convo g ls = Some (ls\<lparr>lastGoalWithState := Some (allocated ls), turnOf := t'\<rparr>)"
      and d: "lookupGoalDef convo (js_to_string (js_get g ''key'')) = Some tgt"
      and cb: "goal_resolve tgt = Some cb" and t': "t' = resolveGoal cb (js_get g ''key'') (turnOf ls)"
    have "modest cb" using assms(1) d cb by (rule lookupGoalDef_modest)
    from resolveGoal_asked[OF this, of "turnOf ls" "js_get g ''key''"]
    show ?thesis using m t' assms(2) by auto
  next
    fix t' tgt
    assume m: "meetGoal convo g ls = Some (ls\<lparr>lastGoalWithState := Some (allocated ls), turnOf := t'\<rparr>)"
      and t': "queryGoal convo tgt g (goalNdx ls) (turnOf ls) = Some t'"
    from queryGoal_asked[OF t']
    show ?thesis using m assms(2) by auto
  next
    assume "meetGoal convo g ls = Some (ls\<lparr>lastGoalWithState := Some (allocated ls), moreGoalsToSeek := False\<rparr>)"
    then show ?thesis using assms(2) by auto
  qed
qed

lemma loop_body_asked:
  assumes "modest_goals convo" and "loop_body convo ls = Some ls'"
  shows "asked (tOutput (turnOf ls)) \<le> asked (tOutput (turnOf ls'))
         \<and> asked (tOutput (turnOf ls')) \<le> asked (tOutput (turnOf ls)) + 1"
proof -
  have s: "asked (tOutput (turnOf (startIteration ls))) = asked (tOutput (turnOf ls))"
    by (simp add: startIteration_def Let_def)
  have "ls' = (startIteration ls)\<lparr>moreGoalsToSeek := False\<rparr>
        \<or> (\<exists>g. meetGoal convo g (startIteration ls) = Some ls')"
    using assms(2) by (auto simp: loop_body_def Let_def split: option.splits if_splits)
  then show ?thesis
  proof
    assume "ls' = (startIteration ls)\<lparr>moreGoalsToSeek := False\<rparr>"
    then show ?thesis using s by simp
  next
    assume "\<exists>g. meetGoal convo g (startIteration ls) = Some ls'"
    then obtain g where "meetGoal convo g (startIteration ls) = Some ls'" by blast
    from meetGoal_asked[OF assms(1) this] s show ?thesis by simp
  qed
qed

lemma goal_loop_asked:
  assumes "modest_goals convo"
    and "promiseWhile loop_condition (loop_body convo) ls = Some ls'"
  shows "asked (tOutput (turnOf ls)) \<le> asked (tOutput (turnOf ls'))
         \<and> (asked (tOutput (turnOf ls)) < 2 \<longrightarrow> asked (tOutput (turnOf ls')) < 2)"
proof -
  define I where "I = (\<lambda>x::loop_state. asked (tOutput (turnOf ls)) \<le> asked (tOutput (turnOf x))
                        \<and> (asked (tOutput (turnOf ls)) < 2 \<longrightarrow> asked (tOutput (turnOf x)) < 2))"
  have step: "\<forall>x x'. I x \<and> loop_condition x \<and> loop_body convo x = Some x' \<longrightarrow> I x'"
  proof (intro allI impI)
    fix x x' assume a: "I x \<and> loop_condition x \<and> loop_body convo x = Some x'"
    then have "loop_body convo x = Some x'" by simp
    from loop_body_asked[OF assms(1) this] a
    show "I x'" by (auto simp: I_def loop_condition_def)
  qed
  have "I ls" by (simp add: I_def)
  with promiseWhile_invariant[OF assms(2), of I] step have "I ls'" by blast
  then show ?thesis by (simp add: I_def)
qed

text \<open>
  C4 (at most one question), as amended. The counter \<open>asked\<close> starts each turn at 0 and
  grows by exactly 1 with every \<open>ask\<close> and by exactly 0.34 with every \<open>prompt\<close>; the goal
  loop runs no further iteration once \<open>asked\<close> has reached 1. When no callback, of the
  intent or of a goal, lowers \<open>asked\<close> or raises it by more than 1 in one call, \<open>asked\<close>
  never decreases during the loop and is below 2 when the loop of a turn completes.
\<close>

theorem at_most_one_question:
  "asked (initialize om) = 0
   \<and> asked (ask om str) = asked om + 1
   \<and> asked (prompt om str) = asked om + 34 / 100
   \<and> (1 \<le> asked (tOutput (turnOf ls)) \<longrightarrow>
        promiseWhile loop_condition (loop_body convo) ls = Some ls)
   \<and> (modest_goals convo \<and> promiseWhile loop_condition (loop_body convo) ls = Some ls' \<longrightarrow>
        asked (tOutput (turnOf ls)) \<le> asked (tOutput (turnOf ls'))
        \<and> (asked (tOutput (turnOf ls)) < 2 \<longrightarrow> asked (tOutput (turnOf ls')) < 2))
   \<and> (modest_goals convo \<and> (\<forall>cb. intentResolveCB = Some cb \<longrightarrow> modest cb)
        \<and> followGoals convo \<lparr>tResponse = r, tOutput = initialize om\<rparr> goalName intentResolveCB
            = Some ls'' \<longrightarrow>
        asked (tOutput (turnOf ls'')) < 2)"
proof (intro conjI impI)
  show "asked (initialize om) = 0" by (simp add: initialize_def)
  show "asked (ask om str) = asked om + 1" by (simp add: ask_def)
  show "asked (prompt om str) = asked om + 34 / 100" by (simp add: prompt_def)
  show "promiseWhile loop_condition (loop_body convo) ls = Some ls"
    if "1 \<le> asked (tOutput (turnOf ls))"
    using that by (subst promiseWhile.simps) (simp add: loop_condition_def)
  show "asked (tOutput (turnOf ls)) \<le> asked (tOutput (turnOf ls'))"
    if "modest_goals convo \<and> promiseWhile loop_condition (loop_body convo) ls = Some ls'"
    using that goal_loop_asked by blast
  show "asked (tOutput (turnOf ls')) < 2"
    if "modest_goals convo \<and> promiseWhile loop_condition (loop_body convo) ls = Some ls'"
      "asked (tOutput (turnOf ls)) < 2"
    using that goal_loop_asked by blast
  show "asked (tOutput (turnOf ls'')) < 2"
    if h: "modest_goals convo \<and> (\<forall>cb. intentResolveCB = Some cb \<longrightarrow> modest cb)
        \<and> followGoals convo \<lparr>tResponse = r, tOutput = initialize om\<rparr> goalName intentResolveCB
            = Some ls''"
  proof -
    let ?t0 = "\<lparr>tResponse = r, tOutput = initialize om\<rparr>"
    let ?t1 = "case intentResolveCB of Some cb \<Rightarrow> resolveGoal cb goalName ?t0 | None \<Rightarrow> ?t0"
    have "asked (tOutput ?t1) \<le> 1"
    proof (cases intentResolveCB)
      case None
      then show ?thesis by (simp add: initialize_def)
    next
      case (Some cb)
      then have "modest cb" using h by simp
      from resolveGoal_asked[OF this, of ?t0 goalName] Some
      show ?thesis by (simp add: initialize_def)
    qed
    then have "asked (tOutput (turnOf (loop_start ?t1))) < 2" by (simp add: loop_start_def)
    moreover have "promiseWhile loop_condition (loop_body convo) (loop_start ?t1) = Some ls''"
      using h by (simp add: followGoals_def goalLoop_def)
    ultimately show ?thesis using goal_loop_asked h by blast
  qed
qed

lemma modest_plain_script: "modest_goals plain_script"
  by (auto simp: modest_goals_def plain_script_def modest_def succeed_def split: if_splits)

theorem at_most_one_question_witness:
  "modest_goals plain_script
   \<and> (\<exists>ls. followGoals plain_script
            \<lparr>tResponse = \<lparr>convoGoalState = Some ''b;b;b;b'', goalStateChanged = False\<rparr>,
             tOutput = initialize fresh_output\<rparr> JUndefined None = Some ls
          \<and> asked (tOutput (turnOf ls)) = 102 / 100 \<and> asked (tOutput (turnOf ls)) < 2)"
proof -
  let ?t = "\<lparr>tResponse = \<lparr>convoGoalState = Some ''b;b;b;b'', goalStateChanged = False\<rparr>,
        tOutput = initialize fresh_output\<rparr>"
  have e: "map_option (\<lambda>ls. asked (tOutput (turnOf ls))) (followGoals plain_script ?t JUndefined None)
           = Some (102 / 100)"
    by code_simp
  then obtain ls where ls: "followGoals plain_script ?t JUndefined None = Some ls"
    "asked (tOutput (turnOf ls)) = 102 / 100" by auto
  have "asked (tOutput (turnOf ls)) < 2"
    using at_most_one_question[where convo = plain_script and intentResolveCB = None
        and r = "\<lparr>convoGoalState = Some ''b;b;b;b'', goalStateChanged = False\<rparr>"
        and om = fresh_output and goalName = JUndefined and ls'' = ls]
      modest_plain_script ls(1) by simp
  then show ?thesis using modest_plain_script ls by blast
qed

theorem at_most_one_question_counterexample:
  "map_option asked_of
     (followGoals plain_script \<lparr>tResponse = \<lparr>convoGoalState = None, goalStateChanged = False\<rparr>,
        tOutput = initialize fresh_output\<rparr> JUndefined (Some asks_twice)) = Some 2"
  by code_simp


lemma length_js_join:
  "length (js_join sep xs) = sum_list (map length xs) + (length xs - 1) * length sep"
  by (induction sep xs rule: js_join.induct) simp_all

lemma sum_list_remove_nth:
  fixes ns :: "nat list"
  assumes "p < length ns"
  shows "sum_list ns = sum_list (take p ns @ drop (Suc p) ns) + ns ! p"
proof -
  have "ns = take p ns @ ns ! p # drop (Suc p) ns" using assms by (rule id_take_nth_drop)
  then have "sum_list ns = sum_list (take p ns @ ns ! p # drop (Suc p) ns)" by simp
  then show ?thesis by simp
qed

lemma encoded_shorter:
  assumes "list_all wf_frame L" "p < length L"
  shows "length (arrToSJN (arrObjToArr (take p L @ drop (Suc p) L))) < length (arrToSJN (arrObjToArr L))"
proof -
  let ?f = "\<lambda>obj. encode_item (frame_key obj) (frame_flags obj)"
  let ?L' = "take p L @ drop (Suc p) L"
  have wf': "list_all wf_frame ?L'"
    using assms(1) by (auto simp: list_all_iff dest: in_set_takeD in_set_dropD)
  have e: "arrToSJN (arrObjToArr M) = js_join '';'' (map ?f M)" if "list_all wf_frame M" for M
    using arrToSJN_wf[OF that] by (simp add: comp_def)
  have "wf_frame (L ! p)" using assms by (simp add: list_all_length)
  then have "?f (L ! p) \<noteq> []"
    using wf_frame_encoded(2)[of "L ! p"] by (simp add: encode_item_def is_alpha_word_def)
  then have pos: "0 < length (?f (L ! p))" by simp
  have "sum_list (map length (map ?f L))
        = sum_list (take p (map length (map ?f L)) @ drop (Suc p) (map length (map ?f L)))
          + map length (map ?f L) ! p"
    using assms(2) by (intro sum_list_remove_nth) simp
  then have s: "sum_list (map length (map ?f L)) = sum_list (map length (map ?f ?L')) + length (?f (L ! p))"
    using assms(2) by (simp add: take_map drop_map)
  have l: "length (map ?f ?L') = length L - 1" "length (map ?f L) = length L"
    using assms(2) by simp_all
  have "length (js_join '';'' (map ?f ?L')) = sum_list (map length (map ?f ?L')) + (length L - 1 - 1)"
    "length (js_join '';'' (map ?f L)) = sum_list (map length (map ?f L)) + (length L - 1)"
    unfolding length_js_join l by simp_all
  then have "length (js_join '';'' (map ?f ?L')) < length (js_join '';'' (map ?f L))"
    using s pos by linarith
  then show ?thesis using e[OF assms(1)] e[OF wf'] by simp
qed

lemma clearGoal_frames:
  assumes "convoGoalState r = Some (arrToSJN (arrObjToArr L))"
    and "list_all wf_frame L" "p < length L" "frame_key (L ! p) = k"
    and "\<forall>j<p. frame_key (L ! j) \<noteq> k \<and> k \<notin> set (frame_flags (L ! j))"
  shows "convoGoalState (clearGoal r (JString k))
         = Some (arrToSJN (arrObjToArr (take p L @ drop (Suc p) L)))"
proof -
  have "wf_frame (L ! p)" using assms(2,3) by (simp add: list_all_length)
  then have "k \<noteq> []" using wf_frame_encoded(2)[of "L ! p"] assms(4) by (auto simp: is_alpha_word_def)
  moreover have "clearInSJN (Some (arrToSJN (arrObjToArr L))) k
      = arrToSJN (arrObjToArr (take p L @ drop (Suc p) L))"
    using assms(2-5) by (rule clearInSJN_frames)
  moreover note encoded_shorter[OF assms(2,3)]
  ultimately show ?thesis using assms(1) by (simp add: clearGoal_def getGoalsRaw_def Let_def)
qed

text \<open>
  C3 (a successful resolver removes one frame), as amended. Take the goal stack as the
  callback leaves it: an encoding of frames with keys in \<open>[A-Za-z]+\<close> and flags in \<open>[a-z]+\<close>
  whose first frame with key \<open>k\<close> is at position \<open>p\<close>, no earlier frame carrying a flag named
  \<open>k\<close>. When the callback invoked for a frame with key \<open>k\<close> returns \<open>true\<close> or nothing, the
  stack afterwards has exactly one frame fewer: the frame at \<open>p\<close>, the oldest with that key, is
  removed and the others stay in order. That is the frame the callback was invoked for when no
  other frame has the key \<open>k\<close>. When the callback returns \<open>false\<close>, the turn is left as the
  callback left it.
\<close>

theorem resolver_success_removes_one_frame:
  assumes "cb t = (res, t')"
    and "convoGoalState (tResponse t') = Some (arrToSJN (arrObjToArr L))"
    and "list_all wf_frame L" "p < length L" "frame_key (L ! p) = k"
    and "\<forall>j<p. frame_key (L ! j) \<noteq> k \<and> k \<notin> set (frame_flags (L ! j))"
  shows "(res = ResTrue \<or> res = ResUndefined \<longrightarrow>
            getGoalStates (tResponse (resolveGoal cb (JString k) t))
              = map canonical_frame (take p L @ drop (Suc p) L)
            \<and> Suc (length (getGoalStates (tResponse (resolveGoal cb (JString k) t))))
              = length (getGoalStates (tResponse t')))
         \<and> (res = ResFalse \<longrightarrow> resolveGoal cb (JString k) t = t')
         \<and> ((\<forall>j<length L. frame_key (L ! j) = k \<longrightarrow> j = p) \<longrightarrow>
              (\<forall>d f. topInArr L d = Some f \<and> frame_key f = k \<longrightarrow> d = int (length L) - 1 - int p))"
proof (intro conjI impI allI)
  have wf': "list_all wf_frame (take p L @ drop (Suc p) L)"
    using assms(3) by (auto simp: list_all_iff dest: in_set_takeD in_set_dropD)
  have before: "getGoalStates (tResponse t') = map canonical_frame L"
    using decode_encode_list[OF assms(3)] assms(2) by (simp add: getGoalStates_def getGoalsRaw_def)
  {
    assume "res = ResTrue \<or> res = ResUndefined"
    then have "tResponse (resolveGoal cb (JString k) t) = clearGoal (tResponse t') (JString k)"
      using assms(1) by (auto simp: resolveGoal_def removeGoal_def)
    then have "convoGoalState (tResponse (resolveGoal cb (JString k) t))
               = Some (arrToSJN (arrObjToArr (take p L @ drop (Suc p) L)))"
      using clearGoal_frames[OF assms(2-6)] by simp
    then show after: "getGoalStates (tResponse (resolveGoal cb (JString k) t))
              = map canonical_frame (take p L @ drop (Suc p) L)"
      using decode_encode_list[OF wf'] by (simp add: getGoalStates_def getGoalsRaw_def)
    show "Suc (length (getGoalStates (tResponse (resolveGoal cb (JString k) t))))
              = length (getGoalStates (tResponse t'))"
      unfolding after before using assms(4) by simp
  }
  show "resolveGoal cb (JString k) t = t'" if "res = ResFalse"
    using that assms(1) by (simp add: resolveGoal_def)
  fix d f
  assume only: "\<forall>j<length L. frame_key (L ! j) = k \<longrightarrow> j = p"
    and "topInArr L d = Some f \<and> frame_key f = k"
  then have d: "0 \<le> d" "d < int (length L)" "frame_key (L ! nat (int (length L) - d - 1)) = k"
    using topInArr_index[of L d f] by auto
  then have "nat (int (length L) - d - 1) = p" using only by simp
  then show "d = int (length L) - 1 - int p" using d by linarith
qed

theorem resolver_success_removes_one_frame_witness:
  "getGoalStates (tResponse (resolveGoal succeed (JString ''k'') (turn_on ''a;k:queried;b'')))
     = [[(''key'', JString ''a'')], [(''key'', JString ''b'')]]
   \<and> Suc (length (getGoalStates (tResponse
          (resolveGoal succeed (JString ''k'') (turn_on ''a;k:queried;b'')))))
     = length (getGoalStates (tResponse (turn_on ''a;k:queried;b'')))"
proof -
  let ?L = "[[(''key'', JString ''a'')], [(''key'', JString ''k''), (''queried'', JBool True)],
      [(''key'', JString ''b'')]]"
  have cb: "succeed (turn_on ''a;k:queried;b'') = (ResTrue, turn_on ''a;k:queried;b'')"
    by (simp add: succeed_def)
  have enc: "convoGoalState (tResponse (turn_on ''a;k:queried;b'')) = Some (arrToSJN (arrObjToArr ?L))"
    by code_simp
  have wf: "list_all wf_frame ?L"
    by (simp add: wf_frame_def is_alpha_word_def is_lower_word_def is_alpha_def is_lower_def is_upper_def)
  have p: "(1::nat) < length ?L" by simp
  have k: "frame_key (?L ! 1) = ''k''" by (simp add: frame_key_def js_get_def)
  have e: "\<forall>j<(1::nat). frame_key (?L ! j) \<noteq> ''k'' \<and> ''k'' \<notin> set (frame_flags (?L ! j))"
    by (simp add: frame_key_def js_get_def frame_flags_def)
  have c: "map canonical_frame (take 1 ?L @ drop (Suc 1) ?L)
           = [[(''key'', JString ''a'')], [(''key'', JString ''b'')]]"
    by (simp add: canonical_frame_def frame_key_def frame_flags_def js_get_def)
  note r = resolver_success_removes_one_frame[where cb = succeed
      and t = "turn_on ''a;k:queried;b''", OF cb enc wf p k e]
  from r have "getGoalStates (tResponse (resolveGoal succeed (JString ''k'') (turn_on ''a;k:queried;b'')))
     = map canonical_frame (take 1 ?L @ drop (Suc 1) ?L)" by blast
  moreover from r have "Suc (length (getGoalStates (tResponse
          (resolveGoal succeed (JString ''k'') (turn_on ''a;k:queried;b'')))))
     = length (getGoalStates (tResponse (turn_on ''a;k:queried;b'')))" by blast
  ultimately show ?thesis using c by (simp only:)
qed

theorem resolver_success_counterexample:
  "mostRecentGoalStates (tResponse (turn_on ''k:x;b;k'')) 0 = Some [(''key'', JString ''k'')]
   \<and> map_option stack_of (loop_body plain_script (loop_start (turn_on ''k:x;b;k'')))
     = Some [[(''key'', JString ''b'')], [(''key'', JString ''k'')]]
   \<and> getGoalStates (tResponse (turn_on ''k:x;b;k''))
     = [[(''key'', JString ''k''), (''x'', JBool True)], [(''key'', JString ''b'')],
        [(''key'', JString ''k'')]]"
  by code_simp

section \<open>Properties of the intent dispatch\<close>

lemma topInArr_rev:
  "n < length arr \<Longrightarrow> topInArr arr (int n) = Some (rev arr ! n)"
  by (auto simp: topInArr_def rev_nth nat_diff_distrib' intro!: arg_cong[where f="nth arr"])

lemma topInArr_below: "length arr \<le> n \<Longrightarrow> topInArr arr (int n) = None"
  by (simp add: topInArr_def)

lemma walkGoals_spec:
  "n \<le> length (getGoalStates r) \<Longrightarrow>
   walkGoals toNumber r defs (int n) = spec_walk toNumber defs (drop n (rev (getGoalStates r)))"
proof (induction "length (getGoalStates r) - n" arbitrary: n)
  case 0
  then have "n = length (getGoalStates r)" by simp
  then show ?case
    by (subst walkGoals.simps) (simp add: mostRecentGoalStates_def topInArr_below)
next
  case (Suc m)
  then have n: "n < length (getGoalStates r)" by simp
  then have d: "drop n (rev (getGoalStates r)) = rev (getGoalStates r) ! n # drop (Suc n) (rev (getGoalStates r))"
    by (simp add: Cons_nth_drop_Suc)
  have ih: "walkGoals toNumber r defs (int (Suc n)) = spec_walk toNumber defs (drop (Suc n) (rev (getGoalStates r)))"
    using Suc n by (intro Suc.hyps(1)) auto
  have step: "walkGoals toNumber r defs (int n)
      = (case List.find (goal_matches toNumber (rev (getGoalStates r) ! n)) defs of
           Some d \<Rightarrow> Some d
         | None \<Rightarrow> walkGoals toNumber r defs (int n + 1))"
    by (subst walkGoals.simps)
       (simp add: mostRecentGoalStates_def topInArr_rev[OF n] del: walkGoals.simps)
  have s: "int n + 1 = int (Suc n)" by simp
  show ?case unfolding step d s ih by simp
qed

text \<open>
  C6 (intent dispatch). With exactly one definition, that definition is chosen. Otherwise the
  goal stack is walked from the top down and, at the first depth where some definition has the
  key of the frame as its goal, the first such definition in registration order is chosen; when
  no frame matches any definition, the first definition is chosen and the warning is logged.
  A goal matches a frame with a string key when it is set, not empty, and equal to the key.
\<close>

theorem intent_dispatch_selection:
  "selectIntentDef toNumber r [d] = Inr (d, False)
   \<and> (length defs \<noteq> 1 \<and> spec_walk toNumber defs (rev (getGoalStates r)) = Some d' \<longrightarrow>
        selectIntentDef toNumber r defs = Inr (d', False))
   \<and> (length defs \<noteq> 1 \<and> defs \<noteq> [] \<and> spec_walk toNumber defs (rev (getGoalStates r)) = None \<longrightarrow>
        selectIntentDef toNumber r defs = Inr (hd defs, True))
   \<and> (js_get frame ''key'' = JString k \<longrightarrow>
        goal_matches toNumber frame d = (\<exists>g. intent_goal d = Some g \<and> g \<noteq> [] \<and> g = k))"
proof (intro conjI impI)
  have w: "walkGoals toNumber r defs 0 = spec_walk toNumber defs (rev (getGoalStates r))"
    using walkGoals_spec[of 0 r toNumber defs] by simp
  show "selectIntentDef toNumber r [d] = Inr (d, False)" by (simp add: selectIntentDef_def)
  show "selectIntentDef toNumber r defs = Inr (d', False)"
    if "length defs \<noteq> 1 \<and> spec_walk toNumber defs (rev (getGoalStates r)) = Some d'"
    using that w by (simp add: selectIntentDef_def del: walkGoals.simps)
  show "selectIntentDef toNumber r defs = Inr (hd defs, True)"
    if "length defs \<noteq> 1 \<and> defs \<noteq> [] \<and> spec_walk toNumber defs (rev (getGoalStates r)) = None"
    using that w by (cases defs) (simp_all add: selectIntentDef_def del: walkGoals.simps)
  show "goal_matches toNumber frame d = (\<exists>g. intent_goal d = Some g \<and> g \<noteq> [] \<and> g = k)"
    if "js_get frame ''key'' = JString k"
    using that by (auto simp: goal_matches_def loose_eq_def split: option.splits)
qed

theorem intent_dispatch_selection_witness:
  "selectIntentDef (\<lambda>s. None) \<lparr>convoGoalState = Some ''A;B:queried'', goalStateChanged = False\<rparr>
     [yes_in ''A'', yes_in ''C'', yes_in ''B''] = Inr (yes_in ''B'', False)
   \<and> selectIntentDef (\<lambda>s. None) \<lparr>convoGoalState = Some ''D'', goalStateChanged = False\<rparr>
     [yes_in ''A'', yes_in ''C'', yes_in ''B''] = Inr (yes_in ''A'', True)"
proof -
  let ?defs = "[yes_in ''A'', yes_in ''C'', yes_in ''B'']"
  let ?r = "\<lparr>convoGoalState = Some ''A;B:queried'', goalStateChanged = False\<rparr>"
  let ?r' = "\<lparr>convoGoalState = Some ''D'', goalStateChanged = False\<rparr>"
  have l: "length ?defs \<noteq> 1" "?defs \<noteq> []" by simp_all
  have a: "spec_walk (\<lambda>s. None) ?defs (rev (getGoalStates ?r)) = Some (yes_in ''B'')"
    by (simp add: getGoalStates_def getGoalsRaw_def sjnToArr_def arrToArrObj_def arrToArrObj_item_def
        js_set_def js_get_def goal_matches_def loose_eq_def yes_in_def)
  have b: "spec_walk (\<lambda>s. None) ?defs (rev (getGoalStates ?r')) = None"
    by (simp add: getGoalStates_def getGoalsRaw_def sjnToArr_def arrToArrObj_def arrToArrObj_item_def
        js_set_def js_get_def goal_matches_def loose_eq_def yes_in_def)
  show ?thesis
    using intent_dispatch_selection[of "\<lambda>s. None" ?r "yes_in ''A''" ?defs "yes_in ''B''"]
      intent_dispatch_selection[of "\<lambda>s. None" ?r' "yes_in ''A''" ?defs "yes_in ''B''"]
      l a b by simp
qed

section \<open>Properties of the phrase expansion\<close>

lemma expandLoop_one_pass:
  "ndx \<le> length U \<Longrightarrow>
   expandLoop pe ndx (length U) (U @ extra)
   = U @ extra @ concat (map (itemVariants pe) (drop ndx U))"
proof (induction "length U - ndx" arbitrary: ndx extra)
  case 0
  then show ?case by (subst expandLoop.simps) simp
next
  case (Suc m)
  then have n: "ndx < length U" by simp
  then have d: "drop ndx U = U ! ndx # drop (Suc ndx) U" by (simp add: Cons_nth_drop_Suc)
  have nth: "(U @ extra) ! ndx = U ! ndx" using n by (simp add: nth_append)
  have "expandLoop pe (Suc ndx) (length U) (U @ (extra @ itemVariants pe (U ! ndx)))
        = U @ (extra @ itemVariants pe (U ! ndx)) @ concat (map (itemVariants pe) (drop (Suc ndx) U))"
    using Suc n by (intro Suc.hyps(1)) auto
  then show ?case
    using n nth d by (subst expandLoop.simps) (simp del: expandLoop.simps)
qed

lemma forPhraseEquivalents_one_pass:
  "forPhraseEquivalents pe U = U @ concat (map (itemVariants pe) U)"
  using expandLoop_one_pass[of 0 U pe "[]"] by (simp add: forPhraseEquivalents_def)

text \<open>
  C9 (phrase-equivalent expansion). The expansion is one pass over the utterances given: the
  result is these utterances followed by the variants of each of them, and no variant is
  expanded again. With two equivalence sets, the order of the sets changes the order of the
  result but not the utterances in it, counted with multiplicity.
\<close>

theorem phrase_expansion_commutes:
  "mset (forPhraseEquivalents [setAB, setCD] userSpeech)
     = mset (forPhraseEquivalents [setCD, setAB] userSpeech)
   \<and> forPhraseEquivalents phraseEquivalents userSpeech
     = userSpeech @ concat (map (itemVariants phraseEquivalents) userSpeech)"
proof
  have "mset (itemVariants [setAB, setCD] u) = mset (itemVariants [setCD, setAB] u)" for u
    by (simp add: itemVariants_def)
  then have "map mset (map (itemVariants [setAB, setCD]) userSpeech)
             = map mset (map (itemVariants [setCD, setAB]) userSpeech)"
    by simp
  then have "mset (concat (map (itemVariants [setAB, setCD]) userSpeech))
             = mset (concat (map (itemVariants [setCD, setAB]) userSpeech))"
    by (simp only: mset_concat)
  then show "mset (forPhraseEquivalents [setAB, setCD] userSpeech)
     = mset (forPhraseEquivalents [setCD, setAB] userSpeech)"
    by (simp add: forPhraseEquivalents_one_pass)
  show "forPhraseEquivalents phraseEquivalents userSpeech
     = userSpeech @ concat (map (itemVariants phraseEquivalents) userSpeech)"
    by (rule forPhraseEquivalents_one_pass)
qed

theorem phrase_expansion_commutes_witness:
  "forPhraseEquivalents [[''my name is'', ''i call myself''], [''hello'', ''hi'']]
      [''Hello my name is [[name]]'']
     = [''Hello my name is [[name]]'', ''Hello i call myself [[name]]'', ''hi my name is [[name]]'']
   \<and> forPhraseEquivalents [[''hello'', ''hi''], [''my name is'', ''i call myself'']]
      [''Hello my name is [[name]]'']
     = [''Hello my name is [[name]]'', ''hi my name is [[name]]'', ''Hello i call myself [[name]]'']
   \<and> mset (forPhraseEquivalents [[''my name is'', ''i call myself''], [''hello'', ''hi'']]
      [''Hello my name is [[name]]''])
     = mset (forPhraseEquivalents [[''hello'', ''hi''], [''my name is'', ''i call myself'']]
      [''Hello my name is [[name]]''])"
proof -
  have a: "forPhraseEquivalents [[''my name is'', ''i call myself''], [''hello'', ''hi'']]
      [''Hello my name is [[name]]'']
     = [''Hello my name is [[name]]'', ''Hello i call myself [[name]]'', ''hi my name is [[name]]'']"
    by code_simp
  have b: "forPhraseEquivalents [[''hello'', ''hi''], [''my name is'', ''i call myself'']]
      [''Hello my name is [[name]]'']
     = [''Hello my name is [[name]]'', ''hi my name is [[name]]'', ''Hello i call myself [[name]]'']"
    by code_simp
  show ?thesis
    using a b phrase_expansion_commutes[of "[''my name is'', ''i call myself'']" "[''hello'', ''hi'']"
        "[''Hello my name is [[name]]'']"]
    by simp
qed

section \<open>Properties of the slot extraction\<close>

lemma occ_cases:
  assumes eq: "a @ b @ c = u @ x @ v" and x: "x \<noteq> []" and b: "b \<noteq> []"
  shows "(\<exists>v'. a = u @ x @ v')
         \<or> (\<exists>u'. c = u' @ x @ v)
         \<or> (\<exists>i<length x. x ! i = hd b)
         \<or> (\<exists>i<length x. x ! i = last b \<and> length u + i + 1 = length a + length b)
         \<or> (\<exists>u' v'. b = u' @ x @ v' \<and> v' \<noteq> [])"
proof -
  let ?w = "a @ b @ c"
  have xi: "x ! i = ?w ! (length u + i)" if "i < length x" for i
    using that by (simp add: eq nth_append)
  have bj: "b ! j = ?w ! (length a + j)" if "j < length b" for j
    using that by (simp add: nth_append)
  have len: "length a + length b + length c = length u + length x + length v"
    using arg_cong[OF eq, of length] by simp
  consider (A) "length u + length x \<le> length a"
    | (C) "length a + length b \<le> length u"
    | (F) "length u \<le> length a" "length a < length u + length x"
    | (L) "length a < length u" "length u < length a + length b" "length a + length b \<le> length u + length x"
    | (I) "length a < length u" "length u + length x < length a + length b"
    by linarith
  then show ?thesis
  proof cases
    case A
    have "a = take (length a) (u @ x @ v)" using eq by (metis append_eq_conv_conj)
    also have "\<dots> = u @ x @ take (length a - length u - length x) v" using A by simp
    finally show ?thesis by blast
  next
    case C
    have "c = drop (length a + length b) (u @ x @ v)"
      using eq by (metis append_eq_conv_conj append.assoc length_append)
    also have "\<dots> = drop (length a + length b) u @ x @ v" using C by simp
    finally show ?thesis by blast
  next
    case F
    let ?i = "length a - length u"
    have i: "?i < length x" using F by linarith
    have "x ! ?i = ?w ! length a" using xi[OF i] F by simp
    also have "\<dots> = b ! 0" using bj[of 0] b by simp
    also have "\<dots> = hd b" using b by (simp add: hd_conv_nth)
    finally show ?thesis using i by blast
  next
    case L
    let ?i = "length a + length b - 1 - length u"
    have lb: "0 < length b" using b by simp
    have i: "?i < length x" using L lb by linarith
    have e: "length u + ?i = length a + (length b - 1)" using L lb by linarith
    have j: "length b - 1 < length b" using lb by simp
    have "x ! ?i = ?w ! (length a + (length b - 1))" using xi[OF i] e by (simp only:)
    also have "\<dots> = b ! (length b - 1)" using bj[OF j] by (simp only:)
    also have "\<dots> = last b" using b by (simp add: last_conv_nth)
    finally have "x ! ?i = last b" .
    moreover have "length u + ?i + 1 = length a + length b" using e lb by linarith
    ultimately show ?thesis using i by blast
  next
    case I
    have "b = take (length b) (drop (length a) ?w)" by simp
    also have "\<dots> = take (length b) (drop (length a) (u @ x @ v))" using eq by simp
    also have "\<dots> = drop (length a) u @ x @ take (length a + length b - length u - length x) v"
      using I by (simp add: take_drop add.commute)
    finally have bb: "b = drop (length a) u @ x @ take (length a + length b - length u - length x) v" .
    have "take (length a + length b - length u - length x) v \<noteq> []"
      using I len by (cases v) auto
    then show ?thesis using bb by blast
  qed
qed

lemma extractedVars_sound:
  "n \<in> set (extractedVars s) \<Longrightarrow> list_all is_alpha n \<and> occurs_in (var_segment n) s"
proof (induction s arbitrary: n rule: extractedVars.induct)
  case 1
  then show ?case by simp
next
  case (2 c cs)
  let ?cond = "c = CHR ''|'' \<and> take 1 (dropWhile is_alpha cs) = ''}''"
  have unf: "extractedVars (c # cs)
      = (if ?cond then takeWhile is_alpha cs # extractedVars (drop 1 (dropWhile is_alpha cs))
         else extractedVars cs)"
    by (simp only: extractedVars.simps)
  show ?case
  proof (cases ?cond)
    case False
    then have "extractedVars (c # cs) = extractedVars cs" unfolding unf by (rule if_not_P)
    then have "n \<in> set (extractedVars cs)" using "2.prems" by simp
    then have r: "list_all is_alpha n" "occurs_in (var_segment n) cs" using "2.IH"(2) False by blast+
    then obtain u v where "cs = u @ var_segment n @ v" by (auto simp: occurs_in_def)
    then have "c # cs = (c # u) @ var_segment n @ v" by simp
    then show ?thesis using r(1) unfolding occurs_in_def by blast
  next
    case True
    then have d: "dropWhile is_alpha cs = CHR ''}'' # drop 1 (dropWhile is_alpha cs)"
      by (cases "dropWhile is_alpha cs") auto
    have cs: "cs = takeWhile is_alpha cs @ CHR ''}'' # drop 1 (dropWhile is_alpha cs)"
      using d by (metis takeWhile_dropWhile_id)
    have "extractedVars (c # cs) = takeWhile is_alpha cs # extractedVars (drop 1 (dropWhile is_alpha cs))"
      using True unfolding unf by (rule if_P)
    with "2.prems" have "n = takeWhile is_alpha cs \<or> n \<in> set (extractedVars (drop 1 (dropWhile is_alpha cs)))"
      by simp
    then show ?thesis
    proof
      assume n: "n = takeWhile is_alpha cs"
      have "list_all is_alpha n" unfolding n by (simp add: list_all_iff) (meson set_takeWhileD)
      moreover have "c # cs = [] @ var_segment n @ drop 1 (dropWhile is_alpha cs)"
        using True n cs by (simp add: var_segment_def)
      ultimately show ?thesis unfolding occurs_in_def by blast
    next
      assume "n \<in> set (extractedVars (drop 1 (dropWhile is_alpha cs)))"
      then have r: "list_all is_alpha n" "occurs_in (var_segment n) (drop 1 (dropWhile is_alpha cs))"
        using "2.IH"(1) True by blast+
      then obtain u v where "drop 1 (dropWhile is_alpha cs) = u @ var_segment n @ v"
        by (auto simp: occurs_in_def)
      then have "c # cs = (c # takeWhile is_alpha cs @ CHR ''}'' # u) @ var_segment n @ v"
        using cs by (metis append.assoc append_Cons)
      then show ?thesis using r(1) unfolding occurs_in_def by blast
    qed
  qed
qed

lemma set_trim: "set (trim s) \<subseteq> set s"
proof -
  have "set (trim s) = set (dropWhile is_space (rev (dropWhile is_space s)))"
    by (simp add: trim_def)
  also have "\<dots> \<subseteq> set (rev (dropWhile is_space s))" by (meson set_dropWhileD subsetI)
  also have "\<dots> \<subseteq> set s" using set_dropWhileD by fastforce
  finally show ?thesis .
qed

lemma set_js_join: "set (js_join sep xs) \<subseteq> set sep \<union> \<Union> (set ` set xs)"
  by (induction sep xs rule: js_join.induct) auto

lemma last_separator:
  assumes "u @ c # n = w @ c # cap" "c \<notin> set n" "c \<notin> set cap"
  shows "n = cap"
proof -
  have "rev n @ c # rev u = rev cap @ c # rev w" using arg_cong[OF assms(1), of rev] by simp
  then have "takeWhile (\<lambda>x. x \<noteq> c) (rev n @ c # rev u) = takeWhile (\<lambda>x. x \<noteq> c) (rev cap @ c # rev w)"
    by simp
  moreover have "takeWhile (\<lambda>x. x \<noteq> c) (rev n @ c # rev u) = rev n"
    using assms(2) by (auto simp: takeWhile_tail)
  moreover have "takeWhile (\<lambda>x. x \<noteq> c) (rev cap @ c # rev w) = rev cap"
    using assms(3) by (auto simp: takeWhile_tail)
  ultimately show ?thesis by simp
qed

lemma slot_ref_chars: "list_all params_char name \<Longrightarrow> c \<in> set (slot_ref name) \<Longrightarrow> c \<noteq> CHR ''{'' \<and> c \<noteq> CHR ''}''"
  using params_char_special by (auto simp: slot_ref_def list_all_iff)

lemma var_segment_chars: "list_all is_alpha n \<Longrightarrow> c \<in> set (var_segment n) \<Longrightarrow> c \<noteq> CHR ''{'' \<and> c \<noteq> CHR ''[''"
  using is_alpha_special is_alpha_params_char params_char_special
  by (auto simp: var_segment_def list_all_iff)

lemma var_segment_brace:
  assumes n: "list_all is_alpha n" and i: "i < length (var_segment n)" and e: "var_segment n ! i = CHR ''}''"
  shows "i + 1 = length (var_segment n)"
proof (rule ccontr)
  assume "i + 1 \<noteq> length (var_segment n)"
  then have il: "i \<le> length n" using i by (simp add: var_segment_def)
  have "var_segment n = (CHR ''|'' # n) @ ''}''" by (simp add: var_segment_def)
  then have "var_segment n ! i = (CHR ''|'' # n) ! i" using il by (simp only: nth_append) simp
  then have "CHR ''}'' \<in> set (CHR ''|'' # n)" using e il by (metis length_Cons less_Suc_eq_le nth_mem)
  then show False using n is_alpha_special by (auto simp: list_all_iff)
qed


lemma refNames_sound:
  "n \<in> set (refNames s) \<Longrightarrow> list_all params_char n \<and> occurs_in (slot_ref n) s"
proof (induction s)
  case Nil
  then show ?case by simp
next
  case (Cons c cs)
  have later: "list_all params_char n \<and> occurs_in (slot_ref n) (c # cs)" if "n \<in> set (refNames cs)"
  proof -
    from Cons.IH[OF that] obtain u v where "list_all params_char n" "cs = u @ slot_ref n @ v"
      by (auto simp: occurs_in_def)
    then have "c # cs = (c # u) @ slot_ref n @ v" by simp
    then show ?thesis using \<open>list_all params_char n\<close> unfolding occurs_in_def by blast
  qed
  show ?case
  proof (cases "match_params (c # cs)")
    case None
    then show ?thesis using Cons.prems later by simp
  next
    case (Some a)
    obtain m name where a: "a = (m, name)" by (cases a)
    from Cons.prems Some a have "n = name \<or> n \<in> set (refNames cs)" by simp
    then show ?thesis
    proof
      assume n: "n = name"
      from match_params_Some[OF Some[unfolded a]] obtain rest where
        "m = slot_ref name" "list_all params_char name" "c # cs = m @ rest" by blast
      then have "c # cs = [] @ slot_ref n @ rest" "list_all params_char n" using n by simp_all
      then show ?thesis unfolding occurs_in_def by blast
    next
      assume "n \<in> set (refNames cs)"
      then show ?thesis by (rule later)
    qed
  qed
qed

lemma match_params_ref:
  assumes "list_all params_char n"
  shows "match_params (slot_ref n @ v) = Some (slot_ref n, n)"
proof -
  have d: "drop 2 (slot_ref n @ v) = n @ ('']]'' @ v)" by (simp add: slot_ref_def)
  have r: "takeWhile params_char (n @ ('']]'' @ v)) = n \<and> dropWhile params_char (n @ ('']]'' @ v)) = '']]'' @ v"
    using takeWhile_run[OF assms, of "'']]'' @ v"] params_char_special by simp
  have "take 2 (slot_ref n @ v) = ''[[''" by (simp add: slot_ref_def)
  then show ?thesis using d r by (simp add: match_params_def Let_def slot_ref_def)
qed

lemma refNames_complete:
  assumes "list_all params_char n"
  shows "s = u @ slot_ref n @ v \<Longrightarrow> n \<in> set (refNames s)"
proof (induction u arbitrary: s)
  case Nil
  obtain c cs where cs: "slot_ref n @ v = c # cs" by (simp add: slot_ref_def)
  have "match_params (c # cs) = Some (slot_ref n, n)"
    using match_params_ref[OF assms, of v] cs by simp
  then show ?case using Nil cs by simp
next
  case (Cons a u)
  then have "n \<in> set (refNames (u @ slot_ref n @ v))" by simp
  then show ?case using Cons.prems by (simp split: option.splits)
qed

lemma refNames_iff:
  "n \<in> set (refNames s) \<longleftrightarrow> list_all params_char n \<and> occurs_in (slot_ref n) s"
  using refNames_sound refNames_complete unfolding occurs_in_def by blast

lemma written_refs_iff:
  "n \<in> set (written_refs U) \<longleftrightarrow> list_all params_char n \<and> (\<exists>u\<in>set U. occurs_in (slot_ref n) u)"
  by (auto simp: written_refs_def refNames_iff)

lemma extractedVars_complete:
  assumes n: "list_all is_alpha n"
  shows "s = u @ var_segment n @ v \<Longrightarrow> n \<in> set (extractedVars s)"
proof (induction s arbitrary: u rule: extractedVars.induct)
  case 1
  then show ?case by (simp add: var_segment_def)
next
  case (2 c cs)
  let ?cond = "c = CHR ''|'' \<and> take 1 (dropWhile is_alpha cs) = ''}''"
  let ?t = "takeWhile is_alpha cs"
  let ?rest = "drop 1 (dropWhile is_alpha cs)"
  have unf: "extractedVars (c # cs)
      = (if ?cond then ?t # extractedVars ?rest else extractedVars cs)"
    by (simp only: extractedVars.simps)
  have nb: "CHR ''|'' \<notin> set n" "CHR ''}'' \<notin> set n"
    using n is_alpha_special by (auto simp: list_all_iff)
  show ?case
  proof (cases u)
    case Nil
    then have c: "c = CHR ''|''" and cs: "cs = n @ CHR ''}'' # v"
      using "2.prems" by (simp_all add: var_segment_def)
    have "takeWhile is_alpha (n @ CHR ''}'' # v) = n \<and> dropWhile is_alpha (n @ CHR ''}'' # v) = CHR ''}'' # v"
      using takeWhile_run[OF n, of "CHR ''}'' # v"] is_alpha_special by simp
    then have "?cond" "?t = n" using c cs by simp_all
    then show ?thesis unfolding unf by simp
  next
    case (Cons a u')
    then have cs: "cs = u' @ var_segment n @ v" using "2.prems" by simp
    show ?thesis
    proof (cases ?cond)
      case False
      then have "extractedVars (c # cs) = extractedVars cs" unfolding unf by (rule if_not_P)
      then show ?thesis using "2.IH"(2)[OF False cs] by simp
    next
      case True
      then have d: "dropWhile is_alpha cs = CHR ''}'' # ?rest"
        by (cases "dropWhile is_alpha cs") auto
      have split: "cs = ?t @ CHR ''}'' # ?rest"
        using d by (metis takeWhile_dropWhile_id)
      have talpha: "\<forall>x\<in>set ?t. is_alpha x" by (meson set_takeWhileD)
      from cs split have "u' @ (CHR ''|'' # n @ CHR ''}'' # v) = ?t @ (CHR ''}'' # ?rest)"
        by (simp add: var_segment_def)
      then obtain w where
        w: "(u' = ?t @ w \<and> w @ (CHR ''|'' # n @ CHR ''}'' # v) = CHR ''}'' # ?rest)
            \<or> (u' @ w = ?t \<and> CHR ''|'' # n @ CHR ''}'' # v = w @ (CHR ''}'' # ?rest))"
        by (auto simp: append_eq_append_conv2)
      then have "\<exists>u''. ?rest = u'' @ var_segment n @ v"
      proof
        assume a: "u' = ?t @ w \<and> w @ (CHR ''|'' # n @ CHR ''}'' # v) = CHR ''}'' # ?rest"
        then obtain w' where "w = CHR ''}'' # w'" by (cases w) auto
        with a have "?rest = w' @ var_segment n @ v" by (simp add: var_segment_def)
        then show ?thesis by blast
      next
        assume a: "u' @ w = ?t \<and> CHR ''|'' # n @ CHR ''}'' # v = w @ (CHR ''}'' # ?rest)"
        show ?thesis
        proof (cases w)
          case Nil
          with a show ?thesis by simp
        next
          case (Cons b w')
          with a have "b = CHR ''|''" by simp
          moreover have "b \<in> set ?t" using a Cons by (metis in_set_conv_decomp)
          ultimately show ?thesis using talpha is_alpha_special by blast
        qed
      qed
      then obtain u'' where "?rest = u'' @ var_segment n @ v" by blast
      from "2.IH"(1)[OF True this] have "n \<in> set (extractedVars ?rest)" .
      moreover have "extractedVars (c # cs) = ?t # extractedVars ?rest"
        using True unfolding unf by (rule if_P)
      ultimately show ?thesis by simp
    qed
  qed
qed

lemma extractedVars_iff:
  "n \<in> set (extractedVars s) \<longleftrightarrow> list_all is_alpha n \<and> occurs_in (var_segment n) s"
  using extractedVars_sound extractedVars_complete unfolding occurs_in_def by blast
lemma store_shape:
  assumes tame: "tame_samples kt" and st: "literalSampleValuesStore kt cap = (rep, kt')"
  shows "tame_samples kt' \<and>
         (\<exists>mid. rep = ''{'' @ mid @ ''|'' @ cap @ ''}'' \<and> CHR ''['' \<notin> set mid \<and> CHR ''}'' \<notin> set mid)
         \<and> (\<forall>n. n \<noteq> cap \<longrightarrow> kt' n = kt n)"
proof (cases "\<exists>t v samples. kt_lookup kt cap = KTOwn (KTObject t v (Some samples))")
  case True
  then obtain t v samples where lk: "kt_lookup kt cap = KTOwn (KTObject t v (Some samples))" by blast
  then have own: "kt cap = Some (KTObject t v (Some samples))"
    by (auto simp: kt_lookup_def split: option.splits if_splits)
  from st lk have rep: "rep = ''{'' @ js_join ''|'' (map trim samples) @ ''|'' @ cap @ ''}''"
    and kt': "kt' = kt(cap \<mapsto> KTObject t v (Some (map trim samples)))"
    by (simp_all add: literalSampleValuesStore_def)
  have ok: "\<forall>s\<in>set samples. CHR ''['' \<notin> set s \<and> CHR ''}'' \<notin> set s"
    using tame own unfolding tame_samples_def by blast
  have okt: "\<forall>s\<in>set (map trim samples). CHR ''['' \<notin> set s \<and> CHR ''}'' \<notin> set s"
    using ok set_trim by fastforce
  have "tame_samples kt'" unfolding tame_samples_def
  proof (intro allI impI)
    fix name t' v' samples'
    assume a: "kt' name = Some (KTObject t' v' (Some samples'))"
    show "\<forall>s\<in>set samples'. CHR ''['' \<notin> set s \<and> CHR ''}'' \<notin> set s"
    proof (cases "name = cap")
      case True
      with a kt' have "samples' = map trim samples" by simp
      then show ?thesis using okt by simp
    next
      case False
      with a kt' have "kt name = Some (KTObject t' v' (Some samples'))" by simp
      then show ?thesis using tame unfolding tame_samples_def by blast
    qed
  qed
  moreover have "CHR ''['' \<notin> set (js_join ''|'' (map trim samples))"
    "CHR ''}'' \<notin> set (js_join ''|'' (map trim samples))"
    using okt set_js_join[of "''|''" "map trim samples"] by auto
  moreover have "\<forall>n. n \<noteq> cap \<longrightarrow> kt' n = kt n" using kt' by simp
  ultimately show ?thesis using rep by blast
next
  case False
  then have rep: "rep = ''{'' @ ''-'' @ ''|'' @ cap @ ''}''"
    and kt': "kt' = kt \<or> kt' = kt(cap \<mapsto> KTString ''AMAZON.LITERAL'')"
    using st
    by (auto simp: literalSampleValuesStore_def split: ktValue.splits keyType.splits option.splits if_splits)
  have "tame_samples kt'" using kt' tame unfolding tame_samples_def
    by (auto split: if_splits)
  moreover have "CHR ''['' \<notin> set ''-''" "CHR ''}'' \<notin> set ''-''" by simp_all
  moreover have "\<forall>n. n \<noteq> cap \<longrightarrow> kt' n = kt n" using kt' by auto
  ultimately show ?thesis using rep by blast
qed

lemma slot_step:
  assumes s: "s = pre @ slot_ref cap @ post" and pc: "list_all params_char cap"
    and mid: "CHR ''['' \<notin> set mid" "CHR ''}'' \<notin> set mid"
    and rep: "rep = ''{'' @ mid @ ''|'' @ cap @ ''}''"
    and ss: "slots_sound orig s" and rk: "refs_kept orig s"
  shows "slots_sound orig (pre @ rep @ post) \<and> refs_kept orig (pre @ rep @ post)"
proof
  have repne: "rep \<noteq> []" and hdrep: "hd rep = CHR ''{''" and lastrep: "last rep = CHR ''}''"
    using rep by simp_all
  have capb: "CHR ''['' \<notin> set cap" "CHR ''}'' \<notin> set cap" "CHR ''|'' \<notin> set cap"
    using pc params_char_special by (auto simp: list_all_iff)
  have nobr: "CHR ''['' \<notin> set rep" using rep mid capb by simp
  have occ_cap: "occurs_in (slot_ref cap) s" using s unfolding occurs_in_def by blast
  have in_pre: "occurs_in x s" if "pre = u @ x @ v'" for x u v'
  proof -
    have "s = u @ x @ (v' @ slot_ref cap @ post)" using s that by simp
    then show ?thesis unfolding occurs_in_def by blast
  qed
  have in_post: "occurs_in x s" if "post = u' @ x @ v" for x u' v
  proof -
    have "s = (pre @ slot_ref cap @ u') @ x @ v" using s that by simp
    then show ?thesis unfolding occurs_in_def by blast
  qed
  show "slots_sound orig (pre @ rep @ post)" unfolding slots_sound_def
  proof (intro allI impI)
    fix n
    assume a: "is_alpha_word n \<and> occurs_in (var_segment n) (pre @ rep @ post)"
    then have an: "list_all is_alpha n" and aw: "is_alpha_word n" by (simp_all add: is_alpha_word_def)
    let ?x = "var_segment n"
    have xne: "?x \<noteq> []" by (simp add: var_segment_def)
    have nb: "CHR ''|'' \<notin> set n" using an is_alpha_special by (auto simp: list_all_iff)
    from a obtain u v where eq: "pre @ rep @ post = u @ ?x @ v" unfolding occurs_in_def by blast
    from occ_cases[OF eq xne repne]
    consider (A) v' where "pre = u @ ?x @ v'"
      | (C) u' where "post = u' @ ?x @ v"
      | (F) i where "i < length ?x" "?x ! i = hd rep"
      | (L) i where "i < length ?x" "?x ! i = last rep" "length u + i + 1 = length pre + length rep"
      | (I) u' v' where "rep = u' @ ?x @ v'" "v' \<noteq> []"
      by blast
    then show "occurs_in (slot_ref n) orig \<or> occurs_in (var_segment n) orig"
    proof cases
      case A
      then have "occurs_in ?x s" by (rule in_pre)
      then show ?thesis using ss aw unfolding slots_sound_def by blast
    next
      case C
      then have "occurs_in ?x s" by (rule in_post)
      then show ?thesis using ss aw unfolding slots_sound_def by blast
    next
      case F
      then have "CHR ''{'' \<in> set ?x" using hdrep by (metis nth_mem)
      then show ?thesis using var_segment_chars[OF an] by blast
    next
      case L
      have il: "i + 1 = length ?x" using var_segment_brace[OF an L(1)] L(2) lastrep by simp
      then have len: "length (u @ ?x) = length (pre @ rep)" using L(3) by simp
      have "u @ ?x = take (length (u @ ?x)) (u @ ?x @ v)" by simp
      also have "\<dots> = take (length (pre @ rep)) (pre @ rep @ post)" using eq len by simp
      also have "\<dots> = pre @ rep" by simp
      finally have "u @ ?x = pre @ rep" .
      then have "(u @ CHR ''|'' # n) @ ''}'' = ((pre @ ''{'' @ mid) @ CHR ''|'' # cap) @ ''}''"
        using rep by (simp add: var_segment_def)
      then have "u @ CHR ''|'' # n = (pre @ ''{'' @ mid) @ CHR ''|'' # cap"
        by (rule append_same_eq[THEN iffD1])
      then have "n = cap" using nb capb(3) by (rule last_separator)
      then show ?thesis using rk pc occ_cap unfolding refs_kept_def by blast
    next
      case I
      define A where "A = u' @ CHR ''|'' # n @ ''}'' @ butlast v'"
      define B where "B = ''{'' @ mid @ ''|'' @ cap"
      have "rep = A @ [last v']" using I by (simp add: var_segment_def A_def)
      moreover have "rep = B @ ''}''" using rep by (simp add: B_def)
      ultimately have "A @ [last v'] = B @ ''}''" by simp
      then have "A = B" by (simp only: append1_eq_conv)
      moreover have "CHR ''}'' \<in> set A" by (simp add: A_def)
      ultimately have "CHR ''}'' \<in> set B" by simp
      then show ?thesis using mid capb by (simp add: B_def)
    qed
  qed
  show "refs_kept orig (pre @ rep @ post)" unfolding refs_kept_def
  proof (intro allI impI)
    fix name
    assume a: "list_all params_char name \<and> occurs_in (slot_ref name) (pre @ rep @ post)"
    then have pn: "list_all params_char name" by simp
    let ?x = "slot_ref name"
    have xne: "?x \<noteq> []" by (simp add: slot_ref_def)
    from a obtain u v where eq: "pre @ rep @ post = u @ ?x @ v" unfolding occurs_in_def by blast
    from occ_cases[OF eq xne repne]
    consider (A) v' where "pre = u @ ?x @ v'"
      | (C) u' where "post = u' @ ?x @ v"
      | (F) i where "i < length ?x" "?x ! i = hd rep"
      | (L) i where "i < length ?x" "?x ! i = last rep"
      | (I) u' v' where "rep = u' @ ?x @ v'"
      by blast
    then show "occurs_in (slot_ref name) orig"
    proof cases
      case A
      then have "occurs_in ?x s" by (rule in_pre)
      then show ?thesis using rk pn unfolding refs_kept_def by blast
    next
      case C
      then have "occurs_in ?x s" by (rule in_post)
      then show ?thesis using rk pn unfolding refs_kept_def by blast
    next
      case F
      then have "CHR ''{'' \<in> set ?x" using hdrep by (metis nth_mem)
      then show ?thesis using slot_ref_chars[OF pn] by blast
    next
      case L
      then have "CHR ''}'' \<in> set ?x" using lastrep by (metis nth_mem)
      then show ?thesis using slot_ref_chars[OF pn] by blast
    next
      case I
      then have "CHR ''['' \<in> set rep" by (simp add: slot_ref_def)
      then show ?thesis using nobr by simp
    qed
  qed
qed


lemma kt_lookup_same: "kt' n = kt n \<Longrightarrow> kt_lookup kt' n = kt_lookup kt n"
  by (simp add: kt_lookup_def)

lemma forSlots_item:
  assumes "tame_samples kt" "slots_sound orig s" "refs_kept orig s"
  shows "\<exists>s' kt'. interpolateParamsFromStore match_params literalSampleValuesStore kt s = Some (s', kt')
           \<and> tame_samples kt' \<and> slots_sound orig s'
           \<and> (\<forall>n. kt_truthy (kt_lookup kt' n) \<longrightarrow>
                  kt_truthy (kt_lookup kt n) \<or> occurs_in (slot_ref n) orig)"
  using assms
proof (induction "length (filter (\<lambda>c. c = CHR ''['') s)" arbitrary: s kt rule: less_induct)
  case less
  show ?case
  proof (cases "regex_exec match_params s")
    case None
    then have "interpolateParamsFromStore match_params literalSampleValuesStore kt s = Some (s, kt)"
      by (subst interpolateParamsFromStore.simps) simp
    then show ?thesis using less.prems by blast
  next
    case (Some a)
    obtain i m cap where a: "a = (i, m, cap)" by (cases a)
    obtain rep kt1 where st: "literalSampleValuesStore kt cap = (rep, kt1)"
      by (cases "literalSampleValuesStore kt cap")
    let ?pre = "take i s" and ?post = "drop (i + length m) s"
    from regex_exec_params[OF Some[unfolded a]]
    have m: "m = slot_ref cap" and pc: "list_all params_char cap"
      and s: "s = ?pre @ slot_ref cap @ ?post" by auto
    from store_shape[OF less.prems(1) st] obtain mid where
      tame1: "tame_samples kt1" and rep: "rep = ''{'' @ mid @ ''|'' @ cap @ ''}''"
      and mid: "CHR ''['' \<notin> set mid" "CHR ''}'' \<notin> set mid"
      and other: "\<forall>n. n \<noteq> cap \<longrightarrow> kt1 n = kt n" by blast
    let ?s' = "?pre @ rep @ ?post"
    have s': "interpolate s m i rep = ?s'" by (simp add: interpolate_def)
    from slot_step[OF s pc mid rep less.prems(2,3)]
    have J: "slots_sound orig ?s'" "refs_kept orig ?s'" by blast+
    have capb: "CHR ''['' \<notin> set cap" using pc params_char_special by (auto simp: list_all_iff)
    have "CHR ''['' \<notin> set rep" using rep mid capb by simp
    then have "length (filter (\<lambda>c. c = CHR ''['') ?s')
               < length (filter (\<lambda>c. c = CHR ''['') (?pre @ slot_ref cap @ ?post))"
      by (rule fewer_brackets)
    then have dec: "length (filter (\<lambda>c. c = CHR ''['') ?s') < length (filter (\<lambda>c. c = CHR ''['') s)"
      using s by simp
    from less.hyps[OF dec tame1 J] obtain s'' kt'' where
      r: "interpolateParamsFromStore match_params literalSampleValuesStore kt1 ?s' = Some (s'', kt'')"
      and t: "tame_samples kt''" "slots_sound orig s''"
      and g: "\<forall>n. kt_truthy (kt_lookup kt'' n) \<longrightarrow>
                  kt_truthy (kt_lookup kt1 n) \<or> occurs_in (slot_ref n) orig" by blast
    have "occurs_in (slot_ref cap) s" using s unfolding occurs_in_def by blast
    then have capo: "occurs_in (slot_ref cap) orig" using less.prems(3) pc unfolding refs_kept_def by blast
    have g1: "kt_truthy (kt_lookup kt1 n) \<longrightarrow> kt_truthy (kt_lookup kt n) \<or> occurs_in (slot_ref n) orig" for n
    proof (cases "n = cap")
      case True
      then show ?thesis using capo by simp
    next
      case False
      then have "kt_lookup kt1 n = kt_lookup kt n" using other kt_lookup_same by blast
      then show ?thesis by simp
    qed
    have "interpolateParamsFromStore match_params literalSampleValuesStore kt s
          = interpolateParamsFromStore match_params literalSampleValuesStore kt1 (interpolate s m i rep)"
      by (subst interpolateParamsFromStore.simps) (simp add: Some a st)
    then have "interpolateParamsFromStore match_params literalSampleValuesStore kt s = Some (s'', kt'')"
      using r s' by simp
    moreover have "\<forall>n. kt_truthy (kt_lookup kt'' n) \<longrightarrow>
                  kt_truthy (kt_lookup kt n) \<or> occurs_in (slot_ref n) orig"
      using g g1 by blast
    ultimately show ?thesis using t by blast
  qed
qed

lemma slots_sound_refl: "slots_sound u u"
  by (simp add: slots_sound_def)

lemma refs_kept_refl: "refs_kept u u"
  by (simp add: refs_kept_def)

lemma forSlots_sound:
  assumes "tame_samples kt"
  shows "\<exists>S kt'. forSlots kt U = Some (S, kt') \<and> tame_samples kt' \<and> list_all2 slots_sound U S
           \<and> (\<forall>n. kt_truthy (kt_lookup kt' n) \<longrightarrow>
                  kt_truthy (kt_lookup kt n) \<or> (\<exists>u\<in>set U. occurs_in (slot_ref n) u))"
  using assms
proof (induction U arbitrary: kt)
  case Nil
  then show ?case by simp
next
  case (Cons u U)
  from forSlots_item[OF Cons.prems slots_sound_refl refs_kept_refl, of u]
  obtain s' kt1 where
    i: "interpolateParamsFromStore match_params literalSampleValuesStore kt u = Some (s', kt1)"
    and t1: "tame_samples kt1" and ss: "slots_sound u s'"
    and g1: "\<forall>n. kt_truthy (kt_lookup kt1 n) \<longrightarrow> kt_truthy (kt_lookup kt n) \<or> occurs_in (slot_ref n) u"
    by blast
  from Cons.IH[OF t1] obtain S kt2 where
    r: "forSlots kt1 U = Some (S, kt2)" and t2: "tame_samples kt2" and l: "list_all2 slots_sound U S"
    and g2: "\<forall>n. kt_truthy (kt_lookup kt2 n) \<longrightarrow>
                kt_truthy (kt_lookup kt1 n) \<or> (\<exists>u\<in>set U. occurs_in (slot_ref n) u)"
    by blast
  have "forSlots kt (u # U) = Some (s' # S, kt2)" using i r by simp
  moreover have "\<forall>n. kt_truthy (kt_lookup kt2 n) \<longrightarrow>
                kt_truthy (kt_lookup kt n) \<or> (\<exists>w\<in>set (u # U). occurs_in (slot_ref n) w)"
    using g1 g2 by auto
  ultimately show ?case using t2 ss l by simp
qed

lemma addParam_dom:
  "addParam kt ps ev name \<noteq> None \<Longrightarrow>
   ps name \<noteq> None \<or> (name = ev \<and> ev \<noteq> [] \<and> kt_truthy (kt_lookup kt ev))"
  by (auto simp: addParam_def split: if_splits ktValue.splits keyType.splits)

lemma foldl_addParam_dom:
  "foldl (addParam kt) ps evs name \<noteq> None \<Longrightarrow>
   ps name \<noteq> None \<or> (name \<in> set evs \<and> name \<noteq> [] \<and> kt_truthy (kt_lookup kt name))"
proof (induction evs arbitrary: ps)
  case Nil
  then show ?case by simp
next
  case (Cons ev evs)
  from Cons.IH[of "addParam kt ps ev"] Cons.prems
  have "addParam kt ps ev name \<noteq> None
        \<or> (name \<in> set evs \<and> name \<noteq> [] \<and> kt_truthy (kt_lookup kt name))" by simp
  then show ?case using addParam_dom[of kt ps ev name] by auto
qed

lemma foldl_speech_dom:
  "foldl (\<lambda>expectedParams speechStr. foldl (addParam kt) expectedParams (extractedVars speechStr)) ps U name \<noteq> None
   \<Longrightarrow> ps name \<noteq> None
       \<or> (name \<noteq> [] \<and> kt_truthy (kt_lookup kt name) \<and> (\<exists>v\<in>set U. name \<in> set (extractedVars v)))"
proof (induction U arbitrary: ps)
  case Nil
  then show ?case by simp
next
  case (Cons u U)
  from Cons.IH[of "foldl (addParam kt) ps (extractedVars u)"] Cons.prems
  have "foldl (addParam kt) ps (extractedVars u) name \<noteq> None
        \<or> (name \<noteq> [] \<and> kt_truthy (kt_lookup kt name) \<and> (\<exists>v\<in>set U. name \<in> set (extractedVars v)))"
    by simp
  then show ?case using foldl_addParam_dom[of kt ps "extractedVars u" name] by auto
qed

lemma extractParamsFromSpeech_dom:
  "extractParamsFromSpeech kt U name \<noteq> None
   \<Longrightarrow> name \<noteq> [] \<and> kt_truthy (kt_lookup kt name) \<and> (\<exists>v\<in>set U. name \<in> set (extractedVars v))"
  using foldl_speech_dom[of kt Map.empty U name] by (simp add: extractParamsFromSpeech_def)

lemma segment_in_spoken:
  assumes l: "list_all2 slots_sound spoken slotted" and v: "v \<in> set slotted"
    and n: "name \<in> set (extractedVars v)" and ne: "name \<noteq> []"
  shows "\<exists>u\<in>set spoken. occurs_in (slot_ref name) u \<or> name \<in> set (extractedVars u)"
proof -
  from v obtain j where j: "j < length slotted" "v = slotted ! j" by (metis in_set_conv_nth)
  with l have ss: "slots_sound (spoken ! j) v" and ju: "j < length spoken"
    by (simp_all add: list_all2_conv_all_nth)
  from extractedVars_sound[OF n] ne have a: "list_all is_alpha name" "is_alpha_word name"
    and o: "occurs_in (var_segment name) v" by (simp_all add: is_alpha_word_def)
  from ss a(2) o have "occurs_in (slot_ref name) (spoken ! j) \<or> occurs_in (var_segment name) (spoken ! j)"
    unfolding slots_sound_def by blast
  then have "occurs_in (slot_ref name) (spoken ! j) \<or> name \<in> set (extractedVars (spoken ! j))"
    using a(1) extractedVars_iff by blast
  then show ?thesis using ju by (metis nth_mem)
qed

text \<open>
  C8 (slot-extraction soundness), as amended. As stated the property fails: the extraction
  reads every \<open>|name}\<close> segment of the produced utterances, and a word group of the author
  such as \<open>{town|city}\<close> has this shape without any reference; a reference can also arise when
  \<open>forPunctuation\<close> removes a comma inside brackets, a segment when a phrase equivalent is put
  in place of a slot name or when a sample value holds one. For a key-type table whose sample
  values hold no \<open>[\<close> and no \<open>}\<close> the slot rewriting returns, and every slot name of the
  extracted mapping appears in the utterances given as \<open>[[name]]\<close>, provided that every
  reference (to a name of letters) left by \<open>forPunctuation\<close> is one that the author wrote, that
  every key-type name which an utterance holds between \<open>|\<close> and \<open>}\<close> is also referenced by the
  author, and that the phrase-equivalent expansion adds no key-type name between \<open>|\<close> and
  \<open>}\<close>.
\<close>

theorem slot_extraction_sound:
  assumes "tame_samples keyTypes"
    and "forPunctuation getNumAsStr userSpeech = Some spoken"
    and "keeps_refs userSpeech spoken"
    and "groups_referenced keyTypes userSpeech spoken"
  shows "\<exists>slotted keyTypes'.
           forSlots keyTypes spoken = Some (slotted, keyTypes')
           \<and> intentParams getNumAsStr keyTypes phraseEquivalents userSpeech
               = Some (forPhraseEquivalents phraseEquivalents slotted,
                       extractParamsFromSpeech keyTypes' (forPhraseEquivalents phraseEquivalents slotted))
           \<and> (adds_no_slot keyTypes' phraseEquivalents slotted \<longrightarrow>
                (\<forall>name. extractParamsFromSpeech keyTypes' (forPhraseEquivalents phraseEquivalents slotted) name
                          \<noteq> None \<longrightarrow>
                   (\<exists>u\<in>set userSpeech. occurs_in (slot_ref name) u)))"
proof -
  from forSlots_sound[OF assms(1), of spoken] obtain S kt' where
    f: "forSlots keyTypes spoken = Some (S, kt')" and l: "list_all2 slots_sound spoken S"
    and g: "\<forall>n. kt_truthy (kt_lookup kt' n) \<longrightarrow>
               kt_truthy (kt_lookup keyTypes n) \<or> (\<exists>u\<in>set spoken. occurs_in (slot_ref n) u)"
    by blast
  let ?V = "concat (map (itemVariants phraseEquivalents) S)"
  let ?utt = "forPhraseEquivalents phraseEquivalents S"
  let ?slots = "extractParamsFromSpeech kt' ?utt"
  have utt: "?utt = S @ ?V" by (rule forPhraseEquivalents_one_pass)
  have r: "intentParams getNumAsStr keyTypes phraseEquivalents userSpeech = Some (?utt, ?slots)"
    using assms(2) f by (simp add: intentParams_def Let_def)
  have written: "\<exists>u\<in>set userSpeech. occurs_in (slot_ref name) u"
    if a: "adds_no_slot kt' phraseEquivalents S" and s: "?slots name \<noteq> None" for name
  proof -
    from extractParamsFromSpeech_dom[OF s] obtain v where
      ne: "name \<noteq> []" and tr: "kt_truthy (kt_lookup kt' name)"
      and v: "v \<in> set ?utt" and n: "name \<in> set (extractedVars v)" by blast
    have alpha: "is_alpha_word name" "list_all params_char name"
      using extractedVars_sound[OF n] ne is_alpha_params_char
      by (auto simp: is_alpha_word_def list_all_iff)
    have "\<exists>w\<in>set S. name \<in> set (extractedVars w)"
    proof (cases "v \<in> set S")
      case True
      then show ?thesis using n by blast
    next
      case False
      then have "v \<in> set ?V" using v utt by simp
      then have "name \<in> set (concat (map extractedVars S))"
        using a n ne tr unfolding adds_no_slot_def by blast
      then show ?thesis by auto
    qed
    then obtain w where w: "w \<in> set S" "name \<in> set (extractedVars w)" by blast
    from segment_in_spoken[OF l w ne] obtain u where
      u: "u \<in> set spoken" "occurs_in (slot_ref name) u \<or> name \<in> set (extractedVars u)" by blast
    have ref: "name \<in> set (written_refs userSpeech)"
      if "u' \<in> set spoken" "occurs_in (slot_ref name) u'" for u'
    proof -
      have "name \<in> set (refNames u')" using that(2) alpha(2) refNames_iff by blast
      then show ?thesis using assms(3) that(1) alpha(1) unfolding keeps_refs_def by blast
    qed
    have "name \<in> set (written_refs userSpeech)"
    proof (cases "occurs_in (slot_ref name) u")
      case True
      then show ?thesis using ref u(1) by blast
    next
      case False
      then have seg: "name \<in> set (extractedVars u)" using u(2) by blast
      from g tr have "kt_truthy (kt_lookup keyTypes name) \<or> (\<exists>u'\<in>set spoken. occurs_in (slot_ref name) u')"
        by blast
      then show ?thesis
      proof
        assume "kt_truthy (kt_lookup keyTypes name)"
        then show ?thesis using assms(4) u(1) seg ne unfolding groups_referenced_def by blast
      next
        assume "\<exists>u'\<in>set spoken. occurs_in (slot_ref name) u'"
        then show ?thesis using ref by blast
      qed
    qed
    then show ?thesis using written_refs_iff by blast
  qed
  show ?thesis using f r written by blast
qed

theorem slot_extraction_sound_witness:
  "tame_samples (Map.empty(''city'' \<mapsto> KTString ''AMAZON.US_CITY''))
   \<and> forPunctuation id [''{I am|} in [[city]], right?'', ''Do I live in [[city]]?'']
       = Some [''{I am|} in [[city]] right'', ''Do I live in [[city]]'']
   \<and> keeps_refs [''{I am|} in [[city]], right?'', ''Do I live in [[city]]?'']
       [''{I am|} in [[city]] right'', ''Do I live in [[city]]'']
   \<and> groups_referenced (Map.empty(''city'' \<mapsto> KTString ''AMAZON.US_CITY''))
       [''{I am|} in [[city]], right?'', ''Do I live in [[city]]?'']
       [''{I am|} in [[city]] right'', ''Do I live in [[city]]'']
   \<and> map_option fst (intentParams id (Map.empty(''city'' \<mapsto> KTString ''AMAZON.US_CITY''))
        [[''i am'', ''i live'']] [''{I am|} in [[city]], right?'', ''Do I live in [[city]]?''])
      = Some [''{I am|} in {-|city} right'', ''Do I live in {-|city}'',
              ''{i live|} in {-|city} right'', ''Do i am in {-|city}'']
   \<and> slot_of (intentParams id (Map.empty(''city'' \<mapsto> KTString ''AMAZON.US_CITY''))
        [[''i am'', ''i live'']] [''{I am|} in [[city]], right?'', ''Do I live in [[city]]?'']) ''city''
      = Some (SlotCode ''AMAZON.US_CITY'')
   \<and> (\<exists>u\<in>set [''{I am|} in [[city]], right?'', ''Do I live in [[city]]?''].
         occurs_in (slot_ref ''city'') u)"
proof -
  let ?kt = "Map.empty(''city'' \<mapsto> KTString ''AMAZON.US_CITY'')"
  let ?U = "[''{I am|} in [[city]], right?'', ''Do I live in [[city]]?'']"
  let ?spoken = "[''{I am|} in [[city]] right'', ''Do I live in [[city]]'']"
  let ?pe = "[[''i am'', ''i live'']]"
  have tm: "tame_samples ?kt" by (simp add: tame_samples_def)
  have p: "forPunctuation id ?U = Some ?spoken" by code_simp
  have k: "keeps_refs ?U ?spoken" by code_simp
  have gr: "groups_referenced ?kt ?U ?spoken" by code_simp
  have e1: "map_option fst (intentParams id ?kt ?pe ?U)
      = Some [''{I am|} in {-|city} right'', ''Do I live in {-|city}'',
              ''{i live|} in {-|city} right'', ''Do i am in {-|city}'']"
    by code_simp
  have e2: "slot_of (intentParams id ?kt ?pe ?U) ''city'' = Some (SlotCode ''AMAZON.US_CITY'')"
    by code_simp
  have e3: "map_option fst (forSlots ?kt ?spoken) = Some [''{I am|} in {-|city} right'', ''Do I live in {-|city}'']"
    by code_simp
  from slot_extraction_sound[OF tm p k gr, of ?pe] obtain slotted kt' where
    f: "forSlots ?kt ?spoken = Some (slotted, kt')"
    and r: "intentParams id ?kt ?pe ?U
            = Some (forPhraseEquivalents ?pe slotted,
                    extractParamsFromSpeech kt' (forPhraseEquivalents ?pe slotted))"
    and w: "adds_no_slot kt' ?pe slotted \<longrightarrow>
              (\<forall>name. extractParamsFromSpeech kt' (forPhraseEquivalents ?pe slotted) name \<noteq> None \<longrightarrow>
                 (\<exists>u\<in>set ?U. occurs_in (slot_ref name) u))"
    by blast
  from f e3 have sl: "slotted = [''{I am|} in {-|city} right'', ''Do I live in {-|city}'']" by simp
  have vars: "concat (map extractedVars slotted) = [[], ''city'', ''city'']"
    unfolding sl by code_simp
  have added: "concat (map extractedVars (concat (map (itemVariants ?pe) slotted))) = [[], ''city'', ''city'']"
    unfolding sl by code_simp
  have "\<forall>v\<in>set (concat (map (itemVariants ?pe) slotted)). \<forall>n\<in>set (extractedVars v).
          n \<in> set (concat (map extractedVars slotted))"
  proof (intro ballI)
    fix v n assume "v \<in> set (concat (map (itemVariants ?pe) slotted))" "n \<in> set (extractedVars v)"
    then have "n \<in> set (concat (map extractedVars (concat (map (itemVariants ?pe) slotted))))"
      by auto
    then show "n \<in> set (concat (map extractedVars slotted))" unfolding added vars .
  qed
  then have a: "adds_no_slot kt' ?pe slotted" unfolding adds_no_slot_def by blast
  from e2 r have "extractParamsFromSpeech kt' (forPhraseEquivalents ?pe slotted) ''city'' \<noteq> None"
    by (simp add: slot_of_def)
  with w a have "\<exists>u\<in>set ?U. occurs_in (slot_ref ''city'') u" by blast
  then show ?thesis using tm p k gr e1 e2 by blast
qed

lemma not_referenced:
  "list_all params_char n \<Longrightarrow> n \<notin> set (refNames u) \<Longrightarrow> \<not> occurs_in (slot_ref n) u"
  using refNames_iff by blast

theorem slot_extraction_counterexample:
  "slot_of (intentParams id (Map.empty(''city'' \<mapsto> KTString ''AMAZON.US_CITY'')) []
              [''I live in the {town|city}'']) ''city''
   = Some (SlotCode ''AMAZON.US_CITY'')
   \<and> \<not> occurs_in (slot_ref ''city'') ''I live in the {town|city}''
   \<and> slot_of (intentParams id Map.empty [] [''in [[a,b]]'']) ''ab'' = Some (SlotCode ''AMAZON.LITERAL'')
   \<and> \<not> occurs_in (slot_ref ''ab'') ''in [[a,b]]''
   \<and> slot_of (intentParams id
        (Map.empty(''city'' \<mapsto> KTString ''AMAZON.US_CITY'', ''town'' \<mapsto> KTString ''AMAZON.US_CITY''))
        [[''city'', ''town'']] [''I live in [[city]]'']) ''town''
     = Some (SlotCode ''AMAZON.US_CITY'')
   \<and> \<not> occurs_in (slot_ref ''town'') ''I live in [[city]]''
   \<and> slot_of (intentParams id
        (Map.empty(''foo'' \<mapsto> KTObject (Some ''T'') None (Some [''x|city}'']),
                   ''city'' \<mapsto> KTString ''AMAZON.US_CITY''))
        [] [''say [[foo]]'']) ''city''
     = Some (SlotCode ''AMAZON.US_CITY'')
   \<and> \<not> occurs_in (slot_ref ''city'') ''say [[foo]]''"
proof -
  have pc: "list_all params_char ''city''" "list_all params_char ''ab''" "list_all params_char ''town''"
    by (simp_all add: params_char_def is_alpha_def is_lower_def)
  have a: "slot_of (intentParams id (Map.empty(''city'' \<mapsto> KTString ''AMAZON.US_CITY'')) []
              [''I live in the {town|city}'']) ''city'' = Some (SlotCode ''AMAZON.US_CITY'')"
    by code_simp
  have a': "\<not> occurs_in (slot_ref ''city'') ''I live in the {town|city}''"
    by (rule not_referenced[OF pc(1)]) code_simp
  have b: "slot_of (intentParams id Map.empty [] [''in [[a,b]]'']) ''ab'' = Some (SlotCode ''AMAZON.LITERAL'')"
    by code_simp
  have b': "\<not> occurs_in (slot_ref ''ab'') ''in [[a,b]]''"
    by (rule not_referenced[OF pc(2)]) code_simp
  have c: "slot_of (intentParams id
        (Map.empty(''city'' \<mapsto> KTString ''AMAZON.US_CITY'', ''town'' \<mapsto> KTString ''AMAZON.US_CITY''))
        [[''city'', ''town'']] [''I live in [[city]]'']) ''town'' = Some (SlotCode ''AMAZON.US_CITY'')"
    by code_simp
  have c': "\<not> occurs_in (slot_ref ''town'') ''I live in [[city]]''"
    by (rule not_referenced[OF pc(3)]) code_simp
  have d: "slot_of (intentParams id
        (Map.empty(''foo'' \<mapsto> KTObject (Some ''T'') None (Some [''x|city}'']),
                   ''city'' \<mapsto> KTString ''AMAZON.US_CITY''))
        [] [''say [[foo]]'']) ''city'' = Some (SlotCode ''AMAZON.US_CITY'')"
    by code_simp
  have d': "\<not> occurs_in (slot_ref ''city'') ''say [[foo]]''"
    by (rule not_referenced[OF pc(1)]) code_simp
  show ?thesis using a a' b b' c c' d d' by blast
qed

end
